theory Spec2Isabelle
  imports Main
begin

section \<open>The argument cursor (class Arguments)\<close>

text \<open>
  The cursor borrows a caller-owned array of C strings (\<open>char** argv\<close>) and keeps a
  remaining count, a read position into that array and the accumulated error text.

  \<^item> The token array is a \<open>string list\<close>; a slot holds the NUL-terminated string its
    \<open>char*\<close> points at, so \<open>p + n\<close> on a slot is \<open>drop n\<close> of the string.
  \<^item> \<open>m_values\<close> (the member \<open>char** values_\<close>) is the index of the slot it points
    at; it is an \<open>int\<close> because \<open>values_--\<close> can step in front of the array.
    \<open>m_count\<close> and \<open>m_errors\<close> are the members \<open>count_\<close> and \<open>errors_\<close>.
  \<^item> A call whose C++ has no defined result (a read through \<open>m_values\<close> outside the
    array, a null \<open>const char*\<close> appended to a \<open>std::string\<close>, a loop that never ends)
    has the result \<open>None\<close>.
\<close>

type_synonym tokens = "string list"

record Arguments =
  m_count :: int
  m_values :: int
  m_errors :: string

text \<open>Reading the slot a \<open>char**\<close> points at; there is none outside the array.\<close>

definition deref :: "tokens \<Rightarrow> int \<Rightarrow> string option" where
  "deref argv i = (if 0 \<le> i \<and> i < int (length argv) then Some (argv ! nat i) else None)"

text \<open>\<open>empty()\<close>.\<close>

definition empty :: "Arguments \<Rightarrow> bool" where
  "empty s = (m_count s \<le> 0)"

text \<open>\<open>message(str...)\<close>: enters the FAILURE state and appends every piece to the error text.\<close>

definition message :: "string list \<Rightarrow> Arguments \<Rightarrow> Arguments" where
  "message strs s = s\<lparr>m_count := - 1, m_errors := m_errors s @ concat strs\<rparr>"

text \<open>\<open>errors()\<close> and \<open>errors(std::string&& initial)\<close>: the accessor and the swap.\<close>

definition errors :: "Arguments \<Rightarrow> string" where
  "errors s = m_errors s"

definition errors_swap :: "string \<Rightarrow> Arguments \<Rightarrow> string \<times> Arguments" where
  "errors_swap initial s = (m_errors s, s\<lparr>m_errors := initial\<rparr>)"

subsection \<open>Number conversion used by the typed getters\<close>

text \<open>
  The integral slot type \<open>T\<close> of \<open>get(T&)\<close> is given by its signedness and width;
  \<open>lowest\<close> and \<open>max_of\<close> are \<open>std::numeric_limits<T>::lowest()\<close> and \<open>max()\<close>.
\<close>

record int_type =
  is_signed :: bool
  bits :: nat

definition lowest :: "int_type \<Rightarrow> int" where
  "lowest T = (if is_signed T then - (2 ^ (bits T - 1)) else 0)"

definition max_of :: "int_type \<Rightarrow> int" where
  "max_of T = (if is_signed T then 2 ^ (bits T - 1) - 1 else 2 ^ bits T - 1)"

definition digit_char :: "nat \<Rightarrow> char" where
  "digit_char d = char_of (48 + d)"

fun to_string_nat :: "nat \<Rightarrow> string" where
  "to_string_nat n = (if n < 10 then [digit_char n] else to_string_nat (n div 10) @ [digit_char (n mod 10)])"

declare to_string_nat.simps [simp del]

text \<open>\<open>std::to_string\<close> on an integer: decimal, with a minus sign when negative.\<close>

definition to_string :: "int \<Rightarrow> string" where
  "to_string i = (if i < 0 then CHR ''-'' # to_string_nat (nat (- i)) else to_string_nat (nat i))"

datatype errc = no_error | invalid_argument | result_out_of_range

definition is_digit :: "char \<Rightarrow> bool" where
  "is_digit c = (48 \<le> (of_char c :: nat) \<and> (of_char c :: nat) \<le> 57)"

definition digit_val :: "char \<Rightarrow> int" where
  "digit_val c = int (of_char c) - 48"

definition decimal :: "string \<Rightarrow> int" where
  "decimal ds = foldl (\<lambda>acc c. 10 * acc + digit_val c) 0 ds"

text \<open>
  Modelled from the spec: \<open>std::from_chars\<close> of the C++ standard library
  (\<open><charconv>\<close>) is called by \<open>get(T&)\<close> but is not part of the repository. The
  spec has \<open>get\<close> parse "a base-10 (locale-independent) integer of the slot's exact
  width/signedness"; the definition follows the C++17 rules for base 10: the pattern
  is an optional minus sign (signed types only) followed by decimal digits, with no
  leading white space and no plus sign; no match gives \<open>invalid_argument\<close>, a
  matched number outside the type gives \<open>result_out_of_range\<close>, and in both cases the
  slot keeps its old content. The result is \<open>((ptr, ec), slot)\<close>, \<open>ptr\<close> being the
  offset of the first character that is not part of the match.
\<close>

definition from_chars :: "int_type \<Rightarrow> string \<Rightarrow> int \<Rightarrow> (nat \<times> errc) \<times> int" where
  "from_chars T tok old =
     (let neg = (is_signed T \<and> tok \<noteq> [] \<and> hd tok = CHR ''-'');
          body = (if neg then tl tok else tok);
          ds = takeWhile is_digit body;
          ptr = (if neg then 1 else 0) + length ds;
          v = (if neg then - decimal ds else decimal ds)
      in if ds = [] then ((0, invalid_argument), old)
         else if v < lowest T \<or> max_of T < v then ((ptr, result_out_of_range), old)
         else ((ptr, no_error), v))"

subsection \<open>Single-slot extraction\<close>

abbreviation apostrophe :: string where
  "apostrophe \<equiv> [CHR 0x27]"

text \<open>\<open>template<typename T> bool get(T& value)\<close> for an integral \<open>T\<close>.\<close>

definition get_int :: "int_type \<Rightarrow> tokens \<Rightarrow> int \<Rightarrow> Arguments \<Rightarrow> (bool \<times> int \<times> Arguments) option" where
  "get_int T argv slot s =
     (if m_count s \<le> 0 then Some (False, slot, s)
      else case deref argv (m_values s) of
        None \<Rightarrow> None
      | Some tok \<Rightarrow>
          (case from_chars T tok slot of ((ptr, ec), slot') \<Rightarrow>
             if ec = invalid_argument then
               Some (False, slot', message [''expects number in place of '' @ apostrophe, tok, apostrophe] s)
             else if ec = result_out_of_range then
               Some (False, slot',
                     message [''expects number in range ['', to_string (lowest T), ''..'',
                              to_string (max_of T), ''] in place of '' @ apostrophe, tok, apostrophe] s)
             else Some (True, slot', s\<lparr>m_count := m_count s - 1, m_values := m_values s + 1\<rparr>)))"

text \<open>
  \<open>bool get(double& value)\<close>. Floating-point values are not modelled: the slot has an
  arbitrary type \<open>'d\<close> and the \<open>double\<close> overload of \<open>std::from_chars\<close> is the
  parameter \<open>fc\<close>, with the same result shape as \<open>from_chars\<close>.
\<close>

type_synonym 'd from_chars_double = "string \<Rightarrow> 'd \<Rightarrow> (nat \<times> errc) \<times> 'd"

definition get_double :: "'d from_chars_double \<Rightarrow> tokens \<Rightarrow> 'd \<Rightarrow> Arguments \<Rightarrow> (bool \<times> 'd \<times> Arguments) option" where
  "get_double fc argv slot s =
     (if m_count s \<le> 0 then Some (False, slot, s)
      else case deref argv (m_values s) of
        None \<Rightarrow> None
      | Some tok \<Rightarrow>
          (case fc tok slot of ((ptr, ec), slot') \<Rightarrow>
             if ec = invalid_argument then
               Some (False, slot', message [''expects floating point value in place of '' @ apostrophe, tok, apostrophe] s)
             else if ec = result_out_of_range then
               Some (False, slot', message [''expects number in double range in place of '' @ apostrophe, tok, apostrophe] s)
             else Some (True, slot', s\<lparr>m_count := m_count s - 1, m_values := m_values s + 1\<rparr>)))"

text \<open>\<open>bool get(std::string& value)\<close>.\<close>

definition get_string :: "tokens \<Rightarrow> string \<Rightarrow> Arguments \<Rightarrow> (bool \<times> string \<times> Arguments) option" where
  "get_string argv slot s =
     (if m_count s \<le> 0 then Some (False, slot, s)
      else case deref argv (m_values s) of
        None \<Rightarrow> None
      | Some tok \<Rightarrow> Some (True, tok, s\<lparr>m_values := m_values s + 1, m_count := m_count s - 1\<rparr>))"

text \<open>\<open>std::string_view get()\<close>: the empty view when nothing is left.\<close>

definition get_view :: "tokens \<Rightarrow> Arguments \<Rightarrow> (string \<times> Arguments) option" where
  "get_view argv s =
     (if m_count s \<le> 0 then Some ([], s)
      else case deref argv (m_values s) of
        None \<Rightarrow> None
      | Some tok \<Rightarrow> Some (tok, s\<lparr>m_count := m_count s - 1, m_values := m_values s + 1\<rparr>))"

subsection \<open>Multi-slot extraction\<close>

text \<open>
  The parameter pack \<open>T& ... values\<close> of \<open>getall\<close> is a list of slots, each carrying its
  C++ type and its current content; overload resolution of \<open>get(values)\<close> is the case
  distinction of \<open>get_slot\<close>.
\<close>

datatype 'd slot = IntSlot int_type int | DoubleSlot 'd | StringSlot string

definition get_slot :: "'d from_chars_double \<Rightarrow> tokens \<Rightarrow> 'd slot \<Rightarrow> Arguments \<Rightarrow> (bool \<times> 'd slot \<times> Arguments) option" where
  "get_slot fc argv sl s =
     (case sl of
        IntSlot T v \<Rightarrow> map_option (\<lambda>(ok, v', s'). (ok, IntSlot T v', s')) (get_int T argv v s)
      | DoubleSlot d \<Rightarrow> map_option (\<lambda>(ok, d', s'). (ok, DoubleSlot d', s')) (get_double fc argv d s)
      | StringSlot t \<Rightarrow> map_option (\<lambda>(ok, t', s'). (ok, StringSlot t', s')) (get_string argv t s))"

text \<open>The fold expression \<open>(get(values) && ...)\<close>: left to right, stopping at the first \<open>false\<close>.\<close>

fun get_fold :: "'d from_chars_double \<Rightarrow> tokens \<Rightarrow> 'd slot list \<Rightarrow> Arguments \<Rightarrow> (bool \<times> 'd slot list \<times> Arguments) option" where
  "get_fold fc argv [] s = Some (True, [], s)"
| "get_fold fc argv (sl # rest) s =
     (case get_slot fc argv sl s of
        None \<Rightarrow> None
      | Some (ok, sl', s') \<Rightarrow>
          if ok then map_option (\<lambda>(ok', rest', s''). (ok', sl' # rest', s'')) (get_fold fc argv rest s')
          else Some (False, sl' # rest, s'))"

definition getall :: "'d from_chars_double \<Rightarrow> tokens \<Rightarrow> 'd slot list \<Rightarrow> Arguments \<Rightarrow> (bool \<times> 'd slot list \<times> Arguments) option" where
  "getall fc argv slots s =
     (if m_count s < 0 then Some (False, slots, s)
      else if int (length slots) > m_count s then
        Some (False, slots,
              message [''expects '', to_string (int (length slots)), '' parameters, got only '', to_string (m_count s)] s)
      else get_fold fc argv slots s)"

section \<open>Parameter descriptors and the dispatch table\<close>

text \<open>
  A dispatcher is a pointer to a member function
  \<open>bool (Class::*)(std::string_view, Arguments&)\<close>. Called on a handler object of type
  \<open>'h\<close>, it may change that object and the cursor; it reads the token array through the
  cursor, whose public interface has no operation that writes to it. Pointers that may be
  null (\<open>dispatcher_\<close>, \<open>name_\<close>, \<open>description_\<close>, \<open>aliases_\<close>) are options.
\<close>

type_synonym 'h dispatcher_type = "'h \<Rightarrow> string \<Rightarrow> tokens \<Rightarrow> Arguments \<Rightarrow> (bool \<times> 'h \<times> Arguments) option"

record 'h Parameter =
  dispatcher :: "'h dispatcher_type option"
  name :: "string option"
  description :: "string option"
  aliases :: "string option"

text \<open>\<open>Parameter::operator bool\<close>.\<close>

definition valid :: "'h Parameter \<Rightarrow> bool" where
  "valid p = (\<not> (name p = None \<or> name p = Some [] \<or> dispatcher p = None))"

text \<open>\<open>std::string_view::find(char)\<close>; \<open>npos\<close> is \<open>None\<close>.\<close>

fun find_char :: "char \<Rightarrow> string \<Rightarrow> nat option" where
  "find_char c [] = None"
| "find_char c (x # xs) = (if x = c then Some 0 else map_option Suc (find_char c xs))"

lemma find_char_less: "find_char c xs = Some i \<Longrightarrow> i < length xs"
  by (induction xs arbitrary: i) (auto split: if_splits)

text \<open>
  The \<open>while\<close> loop of \<open>fillaliases\<close> over the view \<open>current\<close>; the callback \<open>put\<close> acts on
  the state it captured (here \<open>acc\<close>).
\<close>

function fillaliases_loop :: "string \<Rightarrow> (string \<Rightarrow> 'a \<Rightarrow> 'a) \<Rightarrow> 'a \<Rightarrow> 'a" where
  "fillaliases_loop current put acc =
     (if current = [] then acc
      else let current' = dropWhile (\<lambda>c. c = CHR '' '') current
           in case find_char CHR '' '' current' of
                None \<Rightarrow> put current' acc
              | Some space \<Rightarrow> fillaliases_loop (drop (space + 1) current') put (put (take space current') acc))"
  by pat_completeness auto
termination
proof (relation "measure (\<lambda>(current, put, acc). length current)")
  show "wf (measure (\<lambda>(current, put, acc). length current))" by simp
next
  fix current :: string and put :: "string \<Rightarrow> 'a \<Rightarrow> 'a" and acc :: 'a and x space
  assume ne: "current \<noteq> []" and x: "x = dropWhile (\<lambda>c. c = CHR '' '') current"
    and f: "find_char CHR '' '' x = Some space"
  from f have "space < length x" by (rule find_char_less)
  moreover have "length x \<le> length current" unfolding x by (rule length_dropWhile_le)
  ultimately show "((drop (space + 1) x, put, put (take space x) acc), (current, put, acc))
        \<in> measure (\<lambda>(current, put, acc). length current)"
    by simp
qed

declare fillaliases_loop.simps [simp del]

definition fillaliases :: "string option \<Rightarrow> (string \<Rightarrow> 'a \<Rightarrow> 'a) \<Rightarrow> 'a \<Rightarrow> 'a" where
  "fillaliases al put acc =
     (case al of
        None \<Rightarrow> acc
      | Some a \<Rightarrow> if a = [] then acc else fillaliases_loop a put acc)"

text \<open>
  The \<open>std::unordered_map<std::string_view, dispatcher_type>\<close> built at the start of
  \<open>parse\<close>; a slot of the map holds the (possibly null) member pointer.
  \<open>add_parameter\<close> is the body of the loop \<open>for (auto p : params)\<close>.
\<close>

type_synonym 'h dispatchers = "string \<rightharpoonup> 'h dispatcher_type option"

definition add_parameter :: "'h Parameter \<Rightarrow> 'h dispatchers \<Rightarrow> 'h dispatchers" where
  "add_parameter p m =
     (if \<not> valid p then m
      else case name p of
             None \<Rightarrow> m \<comment> \<open>excluded by \<open>valid p\<close>\<close>
           | Some n \<Rightarrow>
               fillaliases (aliases p)
                 (\<lambda>alias m'. if alias \<noteq> [] then m'(alias \<mapsto> dispatcher p) else m')
                 (m(n \<mapsto> dispatcher p)))"

definition build_dispatchers :: "'h Parameter list \<Rightarrow> 'h dispatchers" where
  "build_dispatchers params = fold add_parameter params Map.empty"

text \<open>
  The alias expansion in the spec's words, for comparison with \<open>fillaliases\<close>: the alias
  text is cut at every space, and the non-empty pieces are the alias names; the keys of a
  descriptor are its name and its alias names.
\<close>

fun spec_split_spaces :: "string \<Rightarrow> string list" where
  "spec_split_spaces [] = [[]]"
| "spec_split_spaces (c # cs) =
     (if c = CHR '' '' then [] # spec_split_spaces cs
      else case spec_split_spaces cs of [] \<Rightarrow> [[c]] | w # ws \<Rightarrow> (c # w) # ws)"

definition spec_alias_names :: "string option \<Rightarrow> string list" where
  "spec_alias_names al = (case al of None \<Rightarrow> [] | Some a \<Rightarrow> filter (\<lambda>w. w \<noteq> []) (spec_split_spaces a))"

definition spec_keys :: "'h Parameter \<Rightarrow> string set" where
  "spec_keys p = (case name p of None \<Rightarrow> {} | Some n \<Rightarrow> insert n (set (spec_alias_names (aliases p))))"

section \<open>The dispatch engine (Arguments::parse)\<close>

text \<open>
  \<open>unget\<close> and \<open>revert\<close>. The saved pair \<open>std::pair<char**, char*>\<close> is the slot index
  together with the string the slot held; \<open>nothing\<close> (both null) is \<open>None\<close>.
  \<open>values_[0] += pos\<close> must stay inside the C string.
\<close>

type_synonym saved = "(int \<times> string) option"

definition nothing :: saved where
  "nothing = None"

definition unget :: "int \<Rightarrow> tokens \<Rightarrow> Arguments \<Rightarrow> (saved \<times> tokens \<times> Arguments) option" where
  "unget pos argv s =
     (if m_count s < 0 then Some (nothing, argv, s)
      else let s' = s\<lparr>m_count := m_count s + 1, m_values := m_values s - 1\<rparr>
           in case deref argv (m_values s') of
                None \<Rightarrow> None
              | Some tok \<Rightarrow>
                  if 0 \<le> pos \<and> pos \<le> int (length tok)
                  then Some (Some (m_values s', tok), argv[nat (m_values s') := drop (nat pos) tok], s')
                  else None)"

definition revert :: "saved \<Rightarrow> tokens \<Rightarrow> tokens" where
  "revert v argv = (case v of None \<Rightarrow> argv | Some (first, second) \<Rightarrow> argv[nat first := second])"

text \<open>The listing \<open>for (auto p : params) message(' ', p.name())\<close>.\<close>

fun list_names :: "'h Parameter list \<Rightarrow> Arguments \<Rightarrow> Arguments option" where
  "list_names [] s = Some s"
| "list_names (p # ps) s =
     (case name p of
        None \<Rightarrow> None
      | Some n \<Rightarrow> list_names ps (message ['' '', n] s))"

text \<open>
  The lookup key: \<open>if (eq != param.npos) param = param.substr(0, eq + 1)\<close>.
\<close>

definition verb_key :: "nat option \<Rightarrow> string \<Rightarrow> string" where
  "verb_key eq param = (case eq of None \<Rightarrow> param | Some e \<Rightarrow> take (e + 1) param)"

text \<open>\<open>const auto saved = eq != param.npos ? unget(eq + 1) : nothing\<close>.\<close>

definition save_split :: "nat option \<Rightarrow> tokens \<Rightarrow> Arguments \<Rightarrow> (saved \<times> tokens \<times> Arguments) option" where
  "save_split eq argv s = (case eq of None \<Rightarrow> Some (nothing, argv, s) | Some e \<Rightarrow> unget (int e + 1) argv s)"

text \<open>
  The \<open>for\<close> loop of \<open>parse\<close>, entered with the view \<open>param\<close> that \<open>get()\<close> returned. The
  result is the returned flag with the token array, the handler object and the cursor
  as the call leaves them.
\<close>

partial_function (option) parse_loop ::
  "'h dispatchers \<Rightarrow> 'h Parameter list \<Rightarrow> tokens \<Rightarrow> 'h \<Rightarrow> Arguments \<Rightarrow> string
     \<Rightarrow> (bool \<times> tokens \<times> 'h \<times> Arguments) option" where
  "parse_loop dispatchers params argv obj s param =
     (if \<not> (m_count s \<ge> 0 \<and> param \<noteq> []) then Some (True, argv, obj, s)
      else let eq = find_char CHR ''='' param;
               key = verb_key eq param
           in case dispatchers key of
                None \<Rightarrow>
                  (case list_names params (message [''Unknown verb '' @ apostrophe, key, apostrophe @ '' expected one of:''] s) of
                     None \<Rightarrow> None
                   | Some s' \<Rightarrow> Some (False, argv, obj, s'))
              | Some d \<Rightarrow>
                  (case save_split eq argv s of
                     None \<Rightarrow> None
                   | Some (saved, argv1, s1) \<Rightarrow>
                       (case d of
                          None \<Rightarrow> None
                        | Some h \<Rightarrow>
                            (case h obj key argv1 s1 of
                               None \<Rightarrow> None
                             | Some (ok, obj', s2) \<Rightarrow>
                                 if \<not> ok then Some (False, revert saved argv1, obj', s2)
                                 else (case get_view (revert saved argv1) s2 of
                                         None \<Rightarrow> None
                                       | Some (param', s3) \<Rightarrow>
                                           parse_loop dispatchers params (revert saved argv1) obj' s3 param')))))"

declare parse_loop.simps [code]

definition parse :: "tokens \<Rightarrow> 'h \<Rightarrow> 'h Parameter list \<Rightarrow> Arguments \<Rightarrow> (bool \<times> tokens \<times> 'h \<times> Arguments) option" where
  "parse argv obj params s =
     (if m_count s \<le> 0 then Some (False, argv, obj, s)
      else case get_view argv s of
             None \<Rightarrow> None
           | Some (param, s') \<Rightarrow> parse_loop (build_dispatchers params) params argv obj s' param)"

subsection \<open>The engine as a state machine\<close>

text \<open>
  The spec's state machine, for comparison with \<open>parse_loop\<close>. A configuration is the
  handler object, the cursor and the token just pulled (READY). \<open>spec_step\<close> is one round
  CONSUME-TOKEN, RESOLVE, SPLIT-IF-NEEDED, INVOKE, RESTORE-IF-SPLIT back to READY: the key
  resolves, the handler returns success, and the next token is pulled from the restored
  array. \<open>spec_failed\<close> is a FAILED transition: the key is unknown, or the handler returns
  failure. \<open>spec_done\<close> is the exit of the loop: the pulled token is empty or the cursor
  is in the FAILURE state.
\<close>

type_synonym 'h config = "'h \<times> Arguments \<times> string"

definition spec_done :: "'h config \<Rightarrow> bool" where
  "spec_done c = (case c of (obj, s, param) \<Rightarrow> \<not> (0 \<le> m_count s \<and> param \<noteq> []))"

inductive spec_step :: "'h dispatchers \<Rightarrow> tokens \<Rightarrow> 'h config \<Rightarrow> 'h config \<Rightarrow> bool"
  for D :: "'h dispatchers" and argv :: tokens where
  dispatched:
    "\<lbrakk>0 \<le> m_count s; param \<noteq> [];
      D (verb_key (find_char CHR ''='' param) param) = Some (Some h);
      save_split (find_char CHR ''='' param) argv s = Some (saved, argv1, sa);
      h obj (verb_key (find_char CHR ''='' param) param) argv1 sa = Some (True, obj', sb);
      get_view argv sb = Some (param', sc)\<rbrakk>
     \<Longrightarrow> spec_step D argv (obj, s, param) (obj', sc, param')"

inductive spec_failed :: "'h dispatchers \<Rightarrow> tokens \<Rightarrow> 'h config \<Rightarrow> bool"
  for D :: "'h dispatchers" and argv :: tokens where
  unknown_verb:
    "\<lbrakk>0 \<le> m_count s; param \<noteq> [];
      D (verb_key (find_char CHR ''='' param) param) = None\<rbrakk>
     \<Longrightarrow> spec_failed D argv (obj, s, param)"
| handler_failure:
    "\<lbrakk>0 \<le> m_count s; param \<noteq> [];
      D (verb_key (find_char CHR ''='' param) param) = Some (Some h);
      save_split (find_char CHR ''='' param) argv s = Some (saved, argv1, sa);
      h obj (verb_key (find_char CHR ''='' param) param) argv1 sa = Some (False, obj', sb)\<rbrakk>
     \<Longrightarrow> spec_failed D argv (obj, s, param)"

subsection \<open>The handlers of the test program\<close>

text \<open>
  The dispatcher class \<open>Test\<close> of the repository's test program and its table
  \<open>Test::params\<close>, without what it prints. \<open>Test_dash\<close> stands for \<open>dash\<close>, \<open>ddsh\<close> and
  \<open>help\<close>, which only print. The table has no \<open>double\<close> slot, so the conversion handed
  to \<open>getall\<close> is never called. \<open>lenient\<close> is not part of the test program: it reads
  a number if there is one and reports success either way, as a handler for an optional
  argument does when it ignores what \<open>get\<close> returned.
\<close>

record Test =
  t_u :: int
  t_i :: int
  t_s :: string

definition Test0 :: Test where
  "Test0 = \<lparr>t_u = 0, t_i = 0, t_s = []\<rparr>"

definition no_double :: "unit from_chars_double" where
  "no_double tok d = ((0, invalid_argument), d)"

definition unsigned_t :: int_type where
  "unsigned_t = \<lparr>is_signed = False, bits = 32\<rparr>"

definition short_t :: int_type where
  "short_t = \<lparr>is_signed = True, bits = 16\<rparr>"

definition Test_foo :: "Test dispatcher_type" where
  "Test_foo obj nm argv args =
     (case getall no_double argv [IntSlot unsigned_t (t_u obj), StringSlot (t_s obj), IntSlot short_t (t_i obj)]
             (snd (errors_swap (nm @ '' '') args)) of
        None \<Rightarrow> None
      | Some (ok, slots, args') \<Rightarrow>
          Some (ok,
                (case slots of
                   [IntSlot _ a, StringSlot b, IntSlot _ c] \<Rightarrow> obj\<lparr>t_u := a, t_s := b, t_i := c\<rparr>
                 | _ \<Rightarrow> obj),
                args'))"

definition Test_option :: "Test dispatcher_type" where
  "Test_option obj nm argv args =
     (case getall no_double argv [StringSlot (t_s obj)] (snd (errors_swap (nm @ '' '') args)) of
        None \<Rightarrow> None
      | Some (ok, slots, args') \<Rightarrow>
          Some (ok, (case slots of [StringSlot b] \<Rightarrow> obj\<lparr>t_s := b\<rparr> | _ \<Rightarrow> obj), args'))"

definition Test_bar :: "Test dispatcher_type" where
  "Test_bar obj nm argv args =
     (case getall no_double argv [IntSlot unsigned_t (t_u obj), StringSlot (t_s obj)]
             (snd (errors_swap (nm @ '' '') args)) of
        None \<Rightarrow> None
      | Some (ok, slots, args') \<Rightarrow>
          Some (ok,
                (case slots of [IntSlot _ a, StringSlot b] \<Rightarrow> obj\<lparr>t_u := a, t_s := b\<rparr> | _ \<Rightarrow> obj),
                args'))"

definition Test_dash :: "Test dispatcher_type" where
  "Test_dash obj nm argv args = Some (True, obj, args)"

definition Test_params :: "Test Parameter list" where
  "Test_params =
     [\<lparr>dispatcher = Some Test_option, name = Some ''--option='',
       description = Some ''a parameter with one option'', aliases = Some []\<rparr>,
      \<lparr>dispatcher = Some Test_foo, name = Some ''foo'',
       description = Some ''a foo parameter'', aliases = Some ''f''\<rparr>,
      \<lparr>dispatcher = Some Test_bar, name = Some ''bar'',
       description = Some ''a bar parameter'', aliases = Some ''b ba bbar''\<rparr>,
      \<lparr>dispatcher = Some Test_dash, name = Some ''-'',
       description = Some ''a dash parameter'', aliases = Some []\<rparr>,
      \<lparr>dispatcher = Some Test_dash, name = Some ''--'',
       description = Some ''a double dash parameter'', aliases = Some []\<rparr>,
      \<lparr>dispatcher = Some Test_dash, name = Some ''help'',
       description = Some ''prints this help'', aliases = Some ''--help -h -?''\<rparr>]"

definition lenient :: "Test dispatcher_type" where
  "lenient obj nm argv args =
     (case get_int unsigned_t argv (t_u obj) args of
        None \<Rightarrow> None
      | Some (ok, v, args') \<Rightarrow> Some (True, obj\<lparr>t_u := v\<rparr>, args'))"

section \<open>The tokenizer (str2argv)\<close>

datatype state_t = st_space | st_comment | st_start | st_token

datatype symbol_t = sy_space | sy_comment | sy_token | sy_eol

fun transitions :: "state_t \<Rightarrow> symbol_t \<Rightarrow> state_t" where
  "transitions st_space sy_space = st_space"
| "transitions st_space sy_comment = st_comment"
| "transitions st_space sy_token = st_start"
| "transitions st_space sy_eol = st_space"
| "transitions st_comment sy_space = st_comment"
| "transitions st_comment sy_comment = st_comment"
| "transitions st_comment sy_token = st_comment"
| "transitions st_comment sy_eol = st_space"
| "transitions st_start sy_space = st_space"
| "transitions st_start sy_comment = st_comment"
| "transitions st_start sy_token = st_token"
| "transitions st_start sy_eol = st_space"
| "transitions st_token sy_space = st_space"
| "transitions st_token sy_comment = st_comment"
| "transitions st_token sy_token = st_token"
| "transitions st_token sy_eol = st_space"

text \<open>
  \<open>chr <= ' '\<close> compares plain \<open>char\<close>s, whose signedness the platform chooses: with a
  signed \<open>char\<close> the bytes from 128 on are negative. The flag \<open>sg\<close> says which.
\<close>

definition char_int :: "bool \<Rightarrow> char \<Rightarrow> int" where
  "char_int sg c = (if sg \<and> 128 \<le> (of_char c :: nat) then int (of_char c) - 256 else int (of_char c))"

definition classify :: "bool \<Rightarrow> char \<Rightarrow> char \<Rightarrow> symbol_t" where
  "classify sg cm chr =
     (if chr = CHR 0x0A then sy_eol
      else if char_int sg chr \<le> char_int sg CHR '' '' then sy_space
      else if chr = cm then sy_comment
      else sy_token)"

text \<open>
  The loop \<open>for (auto& chr : str)\<close> from offset \<open>i\<close> on: it returns the rewritten
  characters and the offsets pushed onto \<open>result\<close> (a \<open>char*\<close> into the buffer is its
  offset).
\<close>

fun str2argv_loop :: "bool \<Rightarrow> char \<Rightarrow> state_t \<Rightarrow> nat \<Rightarrow> string \<Rightarrow> string \<times> nat list" where
  "str2argv_loop sg cm st i [] = ([], [])"
| "str2argv_loop sg cm st i (chr # rest) =
     (let symbol = classify sg cm chr;
          chr' = (if symbol \<noteq> sy_token then CHR 0x00 else chr);
          st' = transitions st symbol;
          (rest', result) = str2argv_loop sg cm st' (i + 1) rest
      in (chr' # rest', if st' = st_start then i # result else result))"

definition str2argv :: "bool \<Rightarrow> string \<Rightarrow> char \<Rightarrow> string \<times> nat list" where
  "str2argv sg str cm = str2argv_loop sg cm st_space 0 str"

text \<open>The state the loop is in after a run of characters (used to state where tokens start).\<close>

fun run_state :: "bool \<Rightarrow> char \<Rightarrow> state_t \<Rightarrow> string \<Rightarrow> state_t" where
  "run_state sg cm st [] = st"
| "run_state sg cm st (chr # rest) = run_state sg cm (transitions st (classify sg cm chr)) rest"

text \<open>The C string a \<open>char*\<close> at offset \<open>p\<close> of the buffer denotes (the buffer ends with a NUL).\<close>

definition c_str_at :: "string \<Rightarrow> nat \<Rightarrow> string" where
  "c_str_at buf p = takeWhile (\<lambda>c. c \<noteq> CHR 0x00) (drop p buf)"

definition tokens_of :: "string \<times> nat list \<Rightarrow> string list" where
  "tokens_of r = map (c_str_at (fst r)) (snd r)"

section \<open>Properties of the cursor\<close>

lemma digit_char_simps:
  "digit_char 0 = CHR ''0''" "digit_char 1 = CHR ''1''" "digit_char 2 = CHR ''2''"
  "digit_char 3 = CHR ''3''" "digit_char 4 = CHR ''4''" "digit_char 5 = CHR ''5''"
  "digit_char 6 = CHR ''6''" "digit_char 7 = CHR ''7''" "digit_char 8 = CHR ''8''"
  "digit_char 9 = CHR ''9''" "digit_char (Suc 0) = CHR ''1''"
  by code_simp+

lemma to_string_digit: "0 \<le> i \<Longrightarrow> i < 10 \<Longrightarrow> to_string i = [digit_char (nat i)]"
  by (simp add: to_string_def to_string_nat.simps)

subsection \<open>Swapping the error text\<close>

text \<open>
  Claim C1, as the code has it: \<open>errors(replacement)\<close> returns the previous error text and
  installs the replacement, and touches neither the count nor the position. A cursor in
  the FAILURE state (\<open>count < 0\<close>) is therefore still in the FAILURE state afterwards, and
  every extraction call on it still fails without consuming, whatever tokens the array
  holds.
\<close>

theorem C1_errors_swap_keeps_failure:
  "m_count s < 0 \<Longrightarrow>
     fst (errors_swap r s) = m_errors s
     \<and> snd (errors_swap r s) = s\<lparr>m_errors := r\<rparr>
     \<and> m_count (snd (errors_swap r s)) < 0
     \<and> get_int T argv v (snd (errors_swap r s)) = Some (False, v, snd (errors_swap r s))
     \<and> get_double fc argv d (snd (errors_swap r s)) = Some (False, d, snd (errors_swap r s))
     \<and> get_string argv t (snd (errors_swap r s)) = Some (False, t, snd (errors_swap r s))
     \<and> get_view argv (snd (errors_swap r s)) = Some ([], snd (errors_swap r s))
     \<and> getall fc argv slots (snd (errors_swap r s)) = Some (False, slots, snd (errors_swap r s))"
  by (simp add: errors_swap_def get_int_def get_double_def get_string_def get_view_def getall_def)

theorem C1_errors_swap_keeps_failure_witness:
  "m_count \<lparr>m_count = - 1, m_values = 0, m_errors = ''bad''\<rparr> < 0
   \<and> fst (errors_swap [] \<lparr>m_count = - 1, m_values = 0, m_errors = ''bad''\<rparr>) = ''bad''
   \<and> get_string [''x''] ''old'' (snd (errors_swap [] \<lparr>m_count = - 1, m_values = 0, m_errors = ''bad''\<rparr>))
       = Some (False, ''old'', \<lparr>m_count = - 1, m_values = 0, m_errors = []\<rparr>)"
  using C1_errors_swap_keeps_failure
          [where s = "\<lparr>m_count = - 1, m_values = 0, m_errors = ''bad''\<rparr>" and r = "[]"
             and argv = "[''x'']" and t = "''old''" and T = "\<lparr>is_signed = True, bits = 32\<rparr>"
             and v = 0 and fc = "\<lambda>tok d. ((0, no_error), d)" and d = "()" and slots = "[]"]
  by (simp add: errors_swap_def)

text \<open>
  The claim as stated fails: after \<open>errors("")\<close> on a failed cursor whose array still
  holds the token \<open>x\<close>, \<open>get(std::string&)\<close> returns \<open>false\<close> and consumes nothing.
\<close>

theorem C1_counterexample:
  "m_count (snd (errors_swap [] \<lparr>m_count = - 1, m_values = 0, m_errors = ''bad''\<rparr>)) < 0
   \<and> get_string [''x''] [] (snd (errors_swap [] \<lparr>m_count = - 1, m_values = 0, m_errors = ''bad''\<rparr>))
       = Some (False, [], \<lparr>m_count = - 1, m_values = 0, m_errors = []\<rparr>)"
  by (simp add: errors_swap_def get_string_def)

subsection \<open>Extraction on an empty or failed cursor\<close>

text \<open>
  Claim C2, as the code has it. The four single-value operations (\<open>get\<close> on an integer, a
  floating-point or a text slot, and \<open>get()\<close>) return failure (the empty view for
  \<open>get()\<close>) on every cursor with \<open>count \<le> 0\<close>, empty or failed, and leave the cursor and
  the slot as they were. \<open>getall\<close> does so on a failed cursor (\<open>count < 0\<close>). On an empty
  cursor that has not failed (\<open>count = 0\<close>) \<open>getall\<close> with at least one slot reports the
  arity error instead: it enters the FAILURE state and appends
  "expects N parameters, got only 0".
\<close>

theorem C2_extraction_on_empty_or_failed:
  "(m_count s \<le> 0 \<longrightarrow>
      get_int T argv v s = Some (False, v, s)
      \<and> get_double fc argv d s = Some (False, d, s)
      \<and> get_string argv t s = Some (False, t, s)
      \<and> get_view argv s = Some ([], s))
   \<and> (m_count s < 0 \<longrightarrow> getall fc argv slots s = Some (False, slots, s))
   \<and> (m_count s = 0 \<and> slots \<noteq> [] \<longrightarrow>
        getall fc argv slots s =
          Some (False, slots,
                s\<lparr>m_count := - 1,
                  m_errors := m_errors s @ ''expects '' @ to_string (int (length slots)) @ '' parameters, got only '' @ to_string 0\<rparr>))"
  by (simp add: get_int_def get_double_def get_string_def get_view_def getall_def message_def)

theorem C2_extraction_on_empty_or_failed_witness:
  "get_int \<lparr>is_signed = True, bits = 32\<rparr> [''7''] 3 \<lparr>m_count = - 1, m_values = 0, m_errors = ''bad''\<rparr>
     = Some (False, 3, \<lparr>m_count = - 1, m_values = 0, m_errors = ''bad''\<rparr>)
   \<and> getall (\<lambda>tok d. ((0, no_error), d)) [''7''] [DoubleSlot ()] \<lparr>m_count = - 1, m_values = 0, m_errors = ''bad''\<rparr>
     = Some (False, [DoubleSlot ()], \<lparr>m_count = - 1, m_values = 0, m_errors = ''bad''\<rparr>)
   \<and> get_view [''7''] \<lparr>m_count = 0, m_values = 1, m_errors = []\<rparr>
     = Some ([], \<lparr>m_count = 0, m_values = 1, m_errors = []\<rparr>)
   \<and> getall (\<lambda>tok d. ((0, no_error), d)) [''7''] [StringSlot [], DoubleSlot ()] \<lparr>m_count = 0, m_values = 1, m_errors = []\<rparr>
     = Some (False, [StringSlot [], DoubleSlot ()],
             \<lparr>m_count = - 1, m_values = 1, m_errors = ''expects 2 parameters, got only 0''\<rparr>)"
  using C2_extraction_on_empty_or_failed
          [where s = "\<lparr>m_count = - 1, m_values = 0, m_errors = ''bad''\<rparr>"
             and T = "\<lparr>is_signed = True, bits = 32\<rparr>" and argv = "[''7'']" and v = 3
             and fc = "\<lambda>tok d. ((0, no_error), d)" and d = "()" and t = "[]"
             and slots = "[DoubleSlot ()]"]
        C2_extraction_on_empty_or_failed
          [where s = "\<lparr>m_count = 0, m_values = 1, m_errors = []\<rparr>" and argv = "[''7'']"
             and T = "\<lparr>is_signed = True, bits = 32\<rparr>" and v = 3
             and fc = "\<lambda>tok d. ((0, no_error), d)" and d = "()" and t = "[]"
             and slots = "[StringSlot [], DoubleSlot ()]"]
  by (simp add: to_string_digit digit_char_simps)

text \<open>
  The claim as stated fails for \<open>getall\<close>: with one text slot on an empty cursor that has
  not failed, it enters the FAILURE state and appends an error message.
\<close>

theorem C2_counterexample:
  "getall (\<lambda>tok d. ((0, no_error), d :: unit)) [] [StringSlot []] \<lparr>m_count = 0, m_values = 0, m_errors = []\<rparr>
     = Some (False, [StringSlot []],
             \<lparr>m_count = - 1, m_values = 0, m_errors = ''expects 1 parameters, got only 0''\<rparr>)"
  by (simp add: getall_def message_def to_string_digit digit_char_simps)

subsection \<open>Numeric prefixes\<close>

lemma takeWhile_digits_prefix:
  assumes "\<forall>c \<in> set ds. is_digit c" and "rest \<noteq> []" and "\<not> is_digit (hd rest)"
  shows "takeWhile is_digit (ds @ rest) = ds"
proof -
  from assms(2,3) have "takeWhile is_digit rest = []" by (cases rest) simp_all
  with assms(1) show ?thesis by simp
qed

lemma digit_not_minus: "is_digit c \<Longrightarrow> c \<noteq> CHR ''-''"
  by (auto simp: is_digit_def)

lemma from_chars_prefix:
  assumes ds: "ds \<noteq> []" "\<forall>c \<in> set ds. is_digit c"
    and rest: "rest \<noteq> []" "\<not> is_digit (hd rest)"
    and neg: "neg \<longrightarrow> is_signed T"
    and rng: "lowest T \<le> (if neg then - decimal ds else decimal ds)"
             "(if neg then - decimal ds else decimal ds) \<le> max_of T"
  shows "from_chars T ((if neg then ''-'' else []) @ ds @ rest) old
           = (((if neg then 1 else 0) + length ds, no_error), if neg then - decimal ds else decimal ds)"
proof (cases neg)
  case True
  with neg have sg: "is_signed T" by simp
  have tw: "takeWhile is_digit (ds @ rest) = ds"
    using ds(2) rest by (rule takeWhile_digits_prefix)
  from True sg tw ds(1) rng show ?thesis
    by (simp add: from_chars_def)
next
  case False
  from ds obtain c cs where dsc: "ds = c # cs" by (cases ds) auto
  with ds(2) have "is_digit c" by simp
  then have nm: "hd (ds @ rest) \<noteq> CHR ''-''" using dsc by (simp add: digit_not_minus)
  have tw: "takeWhile is_digit (ds @ rest) = ds"
    using ds(2) rest by (rule takeWhile_digits_prefix)
  from False nm tw ds(1) rng show ?thesis
    by (simp add: from_chars_def)
qed

text \<open>
  Claim C9. The cursor has a token left and the current token is \<open>tok\<close>. If \<open>tok\<close> is
  an optional minus sign (signed slot types only) and a non-empty run of decimal digits
  \<open>ds\<close> whose number fits the slot type, followed by a non-empty rest that starts with a
  character that is not a digit, then \<open>get\<close> on an integer slot returns success, stores
  the number of the prefix and advances the cursor by one: the rest of the token is
  ignored. \<open>get\<close> on a floating-point slot ignores the end pointer in the same way:
  whenever the conversion reports no error, even having read only \<open>ptr < length tok\<close>
  characters, it returns success, stores the converted number and advances by one.
\<close>

theorem C9_get_accepts_numeric_prefix:
  assumes "0 < m_count s" and "deref argv (m_values s) = Some tok"
  shows "(ds \<noteq> [] \<and> (\<forall>c \<in> set ds. is_digit c) \<and> rest \<noteq> [] \<and> \<not> is_digit (hd rest)
          \<and> (neg \<longrightarrow> is_signed T)
          \<and> tok = (if neg then ''-'' else []) @ ds @ rest
          \<and> lowest T \<le> (if neg then - decimal ds else decimal ds)
          \<and> (if neg then - decimal ds else decimal ds) \<le> max_of T
          \<longrightarrow> get_int T argv v s
                = Some (True, if neg then - decimal ds else decimal ds,
                        s\<lparr>m_count := m_count s - 1, m_values := m_values s + 1\<rparr>))
       \<and> (fc tok d = ((ptr, no_error), d') \<and> ptr < length tok
          \<longrightarrow> get_double fc argv d s
                = Some (True, d', s\<lparr>m_count := m_count s - 1, m_values := m_values s + 1\<rparr>))"
  using assms by (auto simp: get_int_def get_double_def from_chars_prefix)

theorem C9_get_accepts_numeric_prefix_witness:
  "get_int \<lparr>is_signed = True, bits = 32\<rparr> [''12abc'', ''z''] 0 \<lparr>m_count = 2, m_values = 0, m_errors = []\<rparr>
     = Some (True, 12, \<lparr>m_count = 1, m_values = 1, m_errors = []\<rparr>)
   \<and> get_double (\<lambda>tok d. ((2, no_error), 12 :: int)) [''12abc'', ''z''] 0 \<lparr>m_count = 2, m_values = 0, m_errors = []\<rparr>
     = Some (True, 12, \<lparr>m_count = 1, m_values = 1, m_errors = []\<rparr>)"
  using C9_get_accepts_numeric_prefix
          [where s = "\<lparr>m_count = 2, m_values = 0, m_errors = []\<rparr>" and argv = "[''12abc'', ''z'']"
             and tok = "''12abc''" and ds = "''12''" and rest = "''abc''" and neg = False
             and T = "\<lparr>is_signed = True, bits = 32\<rparr>" and v = 0
             and fc = "\<lambda>tok d. ((2, no_error), 12 :: int)" and d = 0 and d' = 12 and ptr = 2]
  by (simp add: deref_def is_digit_def decimal_def digit_val_def lowest_def max_of_def)

subsection \<open>Multi-slot extraction\<close>

lemma get_slot_success:
  "get_slot fc argv sl s = Some (True, sl', s') \<Longrightarrow>
     s' = s\<lparr>m_count := m_count s - 1, m_values := m_values s + 1\<rparr>"
  by (cases sl)
     (auto simp: get_slot_def get_int_def get_double_def get_string_def
           split: if_splits option.splits prod.splits)

lemma get_slot_failure_position:
  "get_slot fc argv sl s = Some (False, sl', s') \<Longrightarrow> m_values s' = m_values s"
  by (cases sl)
     (auto simp: get_slot_def get_int_def get_double_def get_string_def message_def
           split: if_splits option.splits prod.splits)

lemma get_fold_success:
  "get_fold fc argv pre s = Some (True, pre', s1) \<Longrightarrow>
     length pre' = length pre
     \<and> m_values s1 = m_values s + int (length pre)
     \<and> m_count s1 = m_count s - int (length pre)
     \<and> m_errors s1 = m_errors s"
proof (induction pre arbitrary: s pre')
  case Nil
  then show ?case by simp
next
  case (Cons sl pre)
  from Cons.prems obtain sl' s' rest' where
    h: "get_slot fc argv sl s = Some (True, sl', s')"
    and r: "get_fold fc argv pre s' = Some (True, rest', s1)" and p: "pre' = sl' # rest'"
    by (auto split: option.splits if_splits)
  from get_slot_success [OF h] Cons.IH [OF r] p show ?case by simp
qed

lemma get_fold_append_failure:
  "get_fold fc argv pre s = Some (True, pre', s1) \<Longrightarrow>
   get_slot fc argv x s1 = Some (False, x', s2) \<Longrightarrow>
   get_fold fc argv (pre @ x # post) s = Some (False, pre' @ x' # post, s2)"
proof (induction pre arbitrary: s pre')
  case Nil
  then show ?case by simp
next
  case (Cons sl pre)
  from Cons.prems(1) obtain sl' s' rest' where
    h: "get_slot fc argv sl s = Some (True, sl', s')"
    and r: "get_fold fc argv pre s' = Some (True, rest', s1)" and p: "pre' = sl' # rest'"
    by (auto split: option.splits if_splits)
  from Cons.IH [OF r Cons.prems(2)] h p show ?case by simp
qed

text \<open>
  Claim C6. On a cursor that has not failed and holds fewer tokens than \<open>getall\<close> has
  slots, \<open>getall\<close> fails with "expects N parameters, got only M", entering the FAILURE
  state with no slot changed and the position unmoved. With at least N tokens it extracts
  the slots from left to right: if the slots \<open>pre\<close> in front of slot \<open>x\<close> are extracted
  successfully and \<open>get\<close> on \<open>x\<close> fails, \<open>getall\<close> fails, the slots after \<open>x\<close> are
  untouched, and the slots before it stay as extracted, their tokens consumed (no
  rollback); if every slot is extracted, \<open>getall\<close> succeeds having consumed N tokens.
\<close>

theorem C6_getall_arity_then_left_to_right:
  "(0 \<le> m_count s \<and> m_count s < int (length slots) \<longrightarrow>
      getall fc argv slots s =
        Some (False, slots,
              s\<lparr>m_count := - 1,
                m_errors := m_errors s @ ''expects '' @ to_string (int (length slots))
                              @ '' parameters, got only '' @ to_string (m_count s)\<rparr>))
   \<and> (int (length slots) \<le> m_count s \<and> slots = pre @ x # post
        \<and> get_fold fc argv pre s = Some (True, pre', sa)
        \<and> get_slot fc argv x sa = Some (False, x', sb) \<longrightarrow>
      getall fc argv slots s = Some (False, pre' @ x' # post, sb)
      \<and> length pre' = length pre
      \<and> m_values sb = m_values s + int (length pre))
   \<and> (int (length slots) \<le> m_count s \<and> get_fold fc argv slots s = Some (True, slots', s') \<longrightarrow>
      getall fc argv slots s = Some (True, slots', s')
      \<and> m_values s' = m_values s + int (length slots)
      \<and> m_count s' = m_count s - int (length slots))"
proof (intro conjI impI)
  assume "0 \<le> m_count s \<and> m_count s < int (length slots)"
  then show "getall fc argv slots s =
        Some (False, slots,
              s\<lparr>m_count := - 1,
                m_errors := m_errors s @ ''expects '' @ to_string (int (length slots))
                              @ '' parameters, got only '' @ to_string (m_count s)\<rparr>)"
    by (simp add: getall_def message_def)
next
  assume a: "int (length slots) \<le> m_count s \<and> slots = pre @ x # post
        \<and> get_fold fc argv pre s = Some (True, pre', sa)
        \<and> get_slot fc argv x sa = Some (False, x', sb)"
  then have nf: "\<not> m_count s < 0" and ar: "\<not> int (length slots) > m_count s" by linarith+
  from a have "get_fold fc argv slots s = Some (False, pre' @ x' # post, sb)"
    by (simp add: get_fold_append_failure)
  with nf ar show "getall fc argv slots s = Some (False, pre' @ x' # post, sb)"
    by (simp add: getall_def)
  from a have gf: "get_fold fc argv pre s = Some (True, pre', sa)"
    and gs: "get_slot fc argv x sa = Some (False, x', sb)" by simp_all
  from get_fold_success [OF gf] show "length pre' = length pre" by simp
  from get_fold_success [OF gf] get_slot_failure_position [OF gs]
  show "m_values sb = m_values s + int (length pre)" by simp
next
  assume a: "int (length slots) \<le> m_count s \<and> get_fold fc argv slots s = Some (True, slots', s')"
  then have nf: "\<not> m_count s < 0" and ar: "\<not> int (length slots) > m_count s" by linarith+
  with a show "getall fc argv slots s = Some (True, slots', s')" by (simp add: getall_def)
  from a have gf: "get_fold fc argv slots s = Some (True, slots', s')" by simp
  from get_fold_success [OF gf] show "m_values s' = m_values s + int (length slots)" by simp
  from get_fold_success [OF gf] show "m_count s' = m_count s - int (length slots)" by simp
qed

theorem C6_getall_arity_then_left_to_right_witness:
  "getall (\<lambda>tok d. ((0, invalid_argument), d :: unit)) [''1'', ''x'']
      [IntSlot \<lparr>is_signed = False, bits = 32\<rparr> 0, StringSlot [], IntSlot \<lparr>is_signed = True, bits = 16\<rparr> 7]
      \<lparr>m_count = 2, m_values = 0, m_errors = []\<rparr>
    = Some (False, [IntSlot \<lparr>is_signed = False, bits = 32\<rparr> 0, StringSlot [], IntSlot \<lparr>is_signed = True, bits = 16\<rparr> 7],
            \<lparr>m_count = - 1, m_values = 0, m_errors = ''expects 3 parameters, got only 2''\<rparr>)
   \<and> getall (\<lambda>tok d. ((0, invalid_argument), d :: unit)) [''1'', ''x'', ''y'']
      [IntSlot \<lparr>is_signed = False, bits = 32\<rparr> 0, StringSlot [], IntSlot \<lparr>is_signed = True, bits = 16\<rparr> 7]
      \<lparr>m_count = 3, m_values = 0, m_errors = []\<rparr>
    = Some (False, [IntSlot \<lparr>is_signed = False, bits = 32\<rparr> 1, StringSlot ''x'', IntSlot \<lparr>is_signed = True, bits = 16\<rparr> 7],
            \<lparr>m_count = - 1, m_values = 2, m_errors = ''expects number in place of '' @ apostrophe @ ''y'' @ apostrophe\<rparr>)
   \<and> getall (\<lambda>tok d. ((0, invalid_argument), d :: unit)) [''1'', ''x'', ''-3'']
      [IntSlot \<lparr>is_signed = False, bits = 32\<rparr> 0, StringSlot [], IntSlot \<lparr>is_signed = True, bits = 16\<rparr> 7]
      \<lparr>m_count = 3, m_values = 0, m_errors = []\<rparr>
    = Some (True, [IntSlot \<lparr>is_signed = False, bits = 32\<rparr> 1, StringSlot ''x'', IntSlot \<lparr>is_signed = True, bits = 16\<rparr> (- 3)],
            \<lparr>m_count = 0, m_values = 3, m_errors = []\<rparr>)"
  using C6_getall_arity_then_left_to_right
          [where fc = "\<lambda>tok d. ((0, invalid_argument), d :: unit)" and argv = "[''1'', ''x'']"
             and slots = "[IntSlot \<lparr>is_signed = False, bits = 32\<rparr> 0, StringSlot [], IntSlot \<lparr>is_signed = True, bits = 16\<rparr> 7]"
             and s = "\<lparr>m_count = 2, m_values = 0, m_errors = []\<rparr>"
             and pre = "[]" and x = "StringSlot []" and post = "[]" and pre' = "[]" and x' = "StringSlot []"
             and sa = "\<lparr>m_count = 2, m_values = 0, m_errors = []\<rparr>" and sb = "\<lparr>m_count = 2, m_values = 0, m_errors = []\<rparr>"
             and slots' = "[]" and s' = "\<lparr>m_count = 2, m_values = 0, m_errors = []\<rparr>"]
        C6_getall_arity_then_left_to_right
          [where fc = "\<lambda>tok d. ((0, invalid_argument), d :: unit)" and argv = "[''1'', ''x'', ''y'']"
             and slots = "[IntSlot \<lparr>is_signed = False, bits = 32\<rparr> 0, StringSlot [], IntSlot \<lparr>is_signed = True, bits = 16\<rparr> 7]"
             and s = "\<lparr>m_count = 3, m_values = 0, m_errors = []\<rparr>"
             and pre = "[IntSlot \<lparr>is_signed = False, bits = 32\<rparr> 0, StringSlot []]"
             and x = "IntSlot \<lparr>is_signed = True, bits = 16\<rparr> 7" and post = "[]"
             and pre' = "[IntSlot \<lparr>is_signed = False, bits = 32\<rparr> 1, StringSlot ''x'']"
             and x' = "IntSlot \<lparr>is_signed = True, bits = 16\<rparr> 7"
             and sa = "\<lparr>m_count = 1, m_values = 2, m_errors = []\<rparr>"
             and sb = "\<lparr>m_count = - 1, m_values = 2, m_errors = ''expects number in place of '' @ apostrophe @ ''y'' @ apostrophe\<rparr>"
             and slots' = "[]" and s' = "\<lparr>m_count = 2, m_values = 0, m_errors = []\<rparr>"]
        C6_getall_arity_then_left_to_right
          [where fc = "\<lambda>tok d. ((0, invalid_argument), d :: unit)" and argv = "[''1'', ''x'', ''-3'']"
             and slots = "[IntSlot \<lparr>is_signed = False, bits = 32\<rparr> 0, StringSlot [], IntSlot \<lparr>is_signed = True, bits = 16\<rparr> 7]"
             and s = "\<lparr>m_count = 3, m_values = 0, m_errors = []\<rparr>"
             and pre = "[]" and x = "StringSlot []" and post = "[]" and pre' = "[]" and x' = "StringSlot []"
             and sa = "\<lparr>m_count = 2, m_values = 0, m_errors = []\<rparr>" and sb = "\<lparr>m_count = 2, m_values = 0, m_errors = []\<rparr>"
             and slots' = "[IntSlot \<lparr>is_signed = False, bits = 32\<rparr> 1, StringSlot ''x'', IntSlot \<lparr>is_signed = True, bits = 16\<rparr> (- 3)]"
             and s' = "\<lparr>m_count = 0, m_values = 3, m_errors = []\<rparr>"]
  by (simp add: get_slot_def get_int_def get_string_def deref_def from_chars_def
      is_digit_def decimal_def digit_val_def lowest_def max_of_def message_def to_string_digit digit_char_simps)


section \<open>Properties of the dispatch table\<close>

lemma split_word: "CHR '' '' \<notin> set w \<Longrightarrow> spec_split_spaces w = [w]"
  by (induction w) auto

lemma split_first: "CHR '' '' \<notin> set w \<Longrightarrow> spec_split_spaces (w @ CHR '' '' # rest) = w # spec_split_spaces rest"
  by (induction w) auto

lemma split_dropWhile:
  "filter (\<lambda>w. w \<noteq> []) (spec_split_spaces (dropWhile (\<lambda>c. c = CHR '' '') xs))
     = filter (\<lambda>w. w \<noteq> []) (spec_split_spaces xs)"
  by (induction xs) auto

lemma find_char_None: "find_char c xs = None \<Longrightarrow> c \<notin> set xs"
  by (induction xs) (auto split: if_splits)

lemma find_char_Some:
  "find_char c xs = Some i \<Longrightarrow> xs = take i xs @ c # drop (Suc i) xs \<and> c \<notin> set (take i xs)"
proof (induction xs arbitrary: i)
  case Nil
  then show ?case by simp
next
  case (Cons x xs)
  show ?case
  proof (cases "x = c")
    case True
    with Cons.prems show ?thesis by simp
  next
    case False
    with Cons.prems obtain j where j: "find_char c xs = Some j" and i: "i = Suc j" by auto
    from Cons.IH [OF j] False i show ?thesis by simp
  qed
qed

lemma fillaliases_loop_fold:
  "(\<And>acc. put [] acc = acc) \<Longrightarrow>
     fillaliases_loop current put acc = fold put (filter (\<lambda>w. w \<noteq> []) (spec_split_spaces current)) acc"
proof (induction current put acc rule: fillaliases_loop.induct)
  case (1 current put acc)
  note assms = "1.prems"
  show ?case
  proof (cases "current = []")
    case True
    then show ?thesis by (simp add: fillaliases_loop.simps)
  next
    case False
    define cur where "cur = dropWhile (\<lambda>c. c = CHR '' '') current"
    have names: "filter (\<lambda>w. w \<noteq> []) (spec_split_spaces current) = filter (\<lambda>w. w \<noteq> []) (spec_split_spaces cur)"
      unfolding cur_def by (rule split_dropWhile [symmetric])
    show ?thesis
    proof (cases "find_char CHR '' '' cur")
      case None
      then have "spec_split_spaces cur = [cur]" by (simp add: find_char_None split_word)
      with names have "fold put (filter (\<lambda>w. w \<noteq> []) (spec_split_spaces current)) acc = put cur acc"
        by (cases "cur = []") (simp_all add: assms)
      moreover have "fillaliases_loop current put acc = put cur acc"
        using None False fillaliases_loop.simps [of current put acc] by (simp add: cur_def)
      ultimately show ?thesis by simp
    next
      case (Some space)
      define w where "w = take space cur"
      define rest where "rest = drop (Suc space) cur"
      from find_char_Some [OF Some]
      have dec: "cur = w @ CHR '' '' # rest" and ns: "CHR '' '' \<notin> set w"
        by (simp_all add: w_def rest_def)
      from ns have "spec_split_spaces (w @ CHR '' '' # rest) = w # spec_split_spaces rest"
        by (rule split_first)
      with dec have "spec_split_spaces cur = w # spec_split_spaces rest" by simp
      with names have sp: "fold put (filter (\<lambda>w. w \<noteq> []) (spec_split_spaces current)) acc
           = fold put (filter (\<lambda>w. w \<noteq> []) (spec_split_spaces rest)) (put w acc)"
        by (cases "w = []") (simp_all add: assms)
      have ih: "fillaliases_loop rest put (put w acc)
           = fold put (filter (\<lambda>w. w \<noteq> []) (spec_split_spaces rest)) (put w acc)"
        using "1.IH" [OF False cur_def Some assms] by (simp add: w_def rest_def)
      have "fillaliases_loop current put acc = fillaliases_loop rest put (put w acc)"
        using Some False fillaliases_loop.simps [of current put acc]
        by (simp add: cur_def w_def rest_def Let_def)
      with ih sp show ?thesis by simp
    qed
  qed
qed

lemma fold_put_alias:
  "fold (\<lambda>alias m'. if alias \<noteq> [] then m'(alias \<mapsto> d) else m') ws m k
     = (if k \<in> set ws \<and> k \<noteq> [] then Some d else m k)"
  by (induction ws arbitrary: m) auto

lemma fillaliases_put:
  "fillaliases al (\<lambda>alias m'. if alias \<noteq> [] then m'(alias \<mapsto> d) else m') m k
     = (if k \<in> set (spec_alias_names al) then Some d else m k)"
proof (cases al)
  case None
  then show ?thesis by (simp add: fillaliases_def spec_alias_names_def)
next
  case (Some a)
  show ?thesis
  proof (cases "a = []")
    case True
    with Some show ?thesis by (simp add: fillaliases_def spec_alias_names_def)
  next
    case False
    have "fillaliases_loop a (\<lambda>alias m'. if alias \<noteq> [] then m'(alias \<mapsto> d) else m') m
            = fold (\<lambda>alias m'. if alias \<noteq> [] then m'(alias \<mapsto> d) else m') (filter (\<lambda>w. w \<noteq> []) (spec_split_spaces a)) m"
      by (rule fillaliases_loop_fold) simp
    with Some False show ?thesis
      by (auto simp: fillaliases_def spec_alias_names_def fold_put_alias)
  qed
qed

lemma add_parameter_invalid: "\<not> valid p \<Longrightarrow> add_parameter p m = m"
  by (simp add: add_parameter_def)

lemma add_parameter_valid:
  "valid p \<Longrightarrow> add_parameter p m k = (if k \<in> spec_keys p then Some (dispatcher p) else m k)"
  by (auto simp: add_parameter_def spec_keys_def valid_def fillaliases_put split: option.splits)

lemma find_app:
  "find P (xs @ ys) = (case find P xs of None \<Rightarrow> find P ys | Some x \<Rightarrow> Some x)"
  by (induction xs) simp_all

lemma find_SomeD: "find P xs = Some x \<Longrightarrow> x \<in> set xs \<and> P x"
  by (induction xs) (auto split: if_splits)

lemma fold_add_parameter:
  "fold add_parameter params m k
     = (case find (\<lambda>p. valid p \<and> k \<in> spec_keys p) (rev params) of
          None \<Rightarrow> m k
        | Some p \<Rightarrow> Some (dispatcher p))"
proof (induction params arbitrary: m)
  case Nil
  then show ?case by simp
next
  case (Cons p params)
  show ?case
  proof (cases "valid p")
    case True
    then show ?thesis
      by (simp add: Cons.IH add_parameter_valid find_app split: option.splits)
  next
    case False
    then show ?thesis
      by (simp add: Cons.IH add_parameter_invalid find_app split: option.splits)
  qed
qed

lemma build_dispatchers_lookup:
  "build_dispatchers params k
     = (case find (\<lambda>p. valid p \<and> k \<in> spec_keys p) (rev params) of
          None \<Rightarrow> None
        | Some p \<Rightarrow> Some (dispatcher p))"
  by (simp add: build_dispatchers_def fold_add_parameter)

lemma build_dispatchers_None:
  "build_dispatchers params k = None \<longleftrightarrow> (\<forall>p \<in> set params. valid p \<longrightarrow> k \<notin> spec_keys p)"
proof (cases "find (\<lambda>p. valid p \<and> k \<in> spec_keys p) (rev params)")
  case None
  then have "\<forall>p \<in> set params. valid p \<longrightarrow> k \<notin> spec_keys p"
    by (auto simp: find_None_iff)
  with None show ?thesis by (simp add: build_dispatchers_lookup)
next
  case (Some p)
  from find_SomeD [OF Some] have "p \<in> set params \<and> valid p \<and> k \<in> spec_keys p" by simp
  with Some show ?thesis by (auto simp: build_dispatchers_lookup)
qed

lemma build_dispatchers_dom:
  "dom (build_dispatchers params) = (\<Union>p \<in> {p \<in> set params. valid p}. spec_keys p)"
  using build_dispatchers_None [of params] by (auto simp: dom_def)

text \<open>
  Claim C8. The loop step for a descriptor that fails the validity predicate leaves the
  dispatch table as it was: no entry for its name or any alias. The step for a valid
  descriptor maps its name and each non-empty space-delimited alias to its dispatcher
  and changes no other key. For the finished table: a key is present exactly when it is
  the name or an alias of some valid descriptor of the table, and its entry is the
  dispatcher of the last such descriptor in table order.
\<close>

theorem C8_dispatch_table_skips_invalid:
  "(\<not> valid (p :: 'h Parameter) \<longrightarrow> add_parameter p m = m)
   \<and> (valid p \<longrightarrow> add_parameter p m k = (if k \<in> spec_keys p then Some (dispatcher p) else m k))
   \<and> dom (build_dispatchers (params :: 'h Parameter list)) = (\<Union>p \<in> {p \<in> set params. valid p}. spec_keys p)
   \<and> build_dispatchers params k
       = (case find (\<lambda>p. valid p \<and> k \<in> spec_keys p) (rev params) of
            None \<Rightarrow> None
          | Some p \<Rightarrow> Some (dispatcher p))"
  by (simp add: add_parameter_invalid add_parameter_valid build_dispatchers_dom build_dispatchers_lookup)

theorem C8_dispatch_table_skips_invalid_witness:
  "add_parameter (\<lparr>dispatcher = None, name = Some ''b'', description = Some [], aliases = Some ''bb''\<rparr> :: Test Parameter) Map.empty
     = Map.empty
   \<and> add_parameter \<lparr>dispatcher = Some Test_dash, name = Some ''help'', description = Some [], aliases = Some ''--help -h  -? ''\<rparr>
        Map.empty ''-h''
     = Some (Some Test_dash)
   \<and> add_parameter \<lparr>dispatcher = Some Test_dash, name = Some ''help'', description = Some [], aliases = Some ''--help -h  -? ''\<rparr>
        Map.empty ''-''
     = None
   \<and> build_dispatchers
        [\<lparr>dispatcher = None, name = Some ''b'', description = Some [], aliases = Some ''bb''\<rparr>,
         \<lparr>dispatcher = Some Test_dash, name = Some ''help'', description = Some [], aliases = Some ''--help -h  -? ''\<rparr>] ''bb''
     = None
   \<and> build_dispatchers
        [\<lparr>dispatcher = None, name = Some ''b'', description = Some [], aliases = Some ''bb''\<rparr>,
         \<lparr>dispatcher = Some Test_dash, name = Some ''help'', description = Some [], aliases = Some ''--help -h  -? ''\<rparr>] ''-?''
     = Some (Some Test_dash)"
proof -
  let ?b = "\<lparr>dispatcher = None, name = Some ''b'', description = Some [], aliases = Some ''bb''\<rparr> :: Test Parameter"
  let ?h = "\<lparr>dispatcher = Some Test_dash, name = Some ''help'', description = Some [], aliases = Some ''--help -h  -? ''\<rparr>"
  have vb: "\<not> valid ?b" and vh: "valid ?h" by (simp_all add: valid_def)
  have kh: "spec_keys ?h = {''help'', ''--help'', ''-h'', ''-?''}"
    by (simp add: spec_keys_def spec_alias_names_def)
  have kb: "spec_keys ?b = {''b'', ''bb''}"
    by (simp add: spec_keys_def spec_alias_names_def)
  note inst = C8_dispatch_table_skips_invalid
  from inst [where p = ?b and m = Map.empty and k = "[]" and params = "[]", THEN conjunct1] vb
  have a: "add_parameter ?b Map.empty = Map.empty" by simp
  from inst [where p = ?h and m = Map.empty and k = "''-h''" and params = "[]", THEN conjunct2, THEN conjunct1] vh kh
  have b: "add_parameter ?h Map.empty ''-h'' = Some (Some Test_dash)" by simp
  from inst [where p = ?h and m = Map.empty and k = "''-''" and params = "[]", THEN conjunct2, THEN conjunct1] vh kh
  have c: "add_parameter ?h Map.empty ''-'' = None" by simp
  from inst [where params = "[?b, ?h]" and k = "''bb''" and p = ?b and m = Map.empty,
             THEN conjunct2, THEN conjunct2, THEN conjunct2] vb vh kh kb
  have d: "build_dispatchers [?b, ?h] ''bb'' = None" by simp
  from inst [where params = "[?b, ?h]" and k = "''-?''" and p = ?b and m = Map.empty,
             THEN conjunct2, THEN conjunct2, THEN conjunct2] vb vh kh kb
  have e: "build_dispatchers [?b, ?h] ''-?'' = Some (Some Test_dash)" by simp
  from a b c d e show ?thesis by blast
qed

section \<open>Properties of the dispatch engine\<close>

subsection \<open>Unknown verbs\<close>

lemma list_names_all:
  "map name params = map Some names \<Longrightarrow> m_count s = - 1 \<Longrightarrow>
     list_names params s = Some (s\<lparr>m_errors := m_errors s @ concat (map (\<lambda>n. CHR '' '' # n) names)\<rparr>)"
proof (induction params arbitrary: s names)
  case Nil
  then show ?case by simp
next
  case (Cons p params)
  from Cons.prems(1) obtain n ns where n: "name p = Some n" and ns: "names = n # ns"
    and r: "map name params = map Some ns" by (cases names) auto
  have "m_count (message ['' '', n] s) = - 1" by (simp add: message_def)
  from Cons.IH [OF r this] n ns Cons.prems(2) show ?case by (simp add: message_def)
qed

lemma parse_loop_unknown:
  assumes "0 \<le> m_count s" and "param \<noteq> []"
    and "D (verb_key (find_char CHR ''='' param) param) = None"
    and "map name params = map Some names"
  shows "parse_loop D params argv obj s param
           = Some (False, argv, obj,
                   s\<lparr>m_count := - 1,
                     m_errors := m_errors s @ ''Unknown verb '' @ apostrophe
                                   @ verb_key (find_char CHR ''='' param) param
                                   @ apostrophe @ '' expected one of:''
                                   @ concat (map (\<lambda>n. CHR '' '' # n) names)\<rparr>)"
proof -
  let ?key = "verb_key (find_char CHR ''='' param) param"
  let ?s1 = "message [''Unknown verb '' @ apostrophe, ?key, apostrophe @ '' expected one of:''] s"
  have "m_count ?s1 = - 1" by (simp add: message_def)
  from list_names_all [OF assms(4) this]
  have "list_names params ?s1 = Some (?s1\<lparr>m_errors := m_errors ?s1 @ concat (map (\<lambda>n. CHR '' '' # n) names)\<rparr>)" .
  with assms(1,2,3) show ?thesis
    by (subst parse_loop.simps) (simp add: Let_def message_def)
qed

lemma build_dispatchers_skip:
  "\<not> valid p \<Longrightarrow> build_dispatchers (front @ p # tail) = build_dispatchers (front @ tail)"
  by (simp add: build_dispatchers_def add_parameter_invalid fun_eq_iff)



text \<open>
  Claim C10, as the code has it. The listing of an unknown verb runs over the whole table,
  not over the dispatch table. In a table whose descriptors all have a name that is a C
  string (no null pointer), a descriptor \<open>p\<close> that fails the validity predicate, by an
  empty name or a null dispatcher, and is skipped when the dispatch table is built (the
  table is the one built without \<open>p\<close>) still has its name listed, at its place in table
  order. This holds even when the unknown token is the name of \<open>p\<close> itself.
\<close>

theorem C10_listing_includes_invalid:
  assumes "0 \<le> m_count s" and "param \<noteq> []"
    and "\<forall>q \<in> set params. valid q \<longrightarrow> verb_key (find_char CHR ''='' param) param \<notin> spec_keys q"
    and "params = front @ p # tail" and "\<not> valid p"
    and "map name front = map Some fnames" and "name p = Some n" and "map name tail = map Some bnames"
  shows "build_dispatchers params = build_dispatchers (front @ tail)
       \<and> parse_loop (build_dispatchers params) params argv obj s param
           = Some (False, argv, obj,
                   s\<lparr>m_count := - 1,
                     m_errors := m_errors s @ ''Unknown verb '' @ apostrophe
                                   @ verb_key (find_char CHR ''='' param) param
                                   @ apostrophe @ '' expected one of:''
                                   @ concat (map (\<lambda>n. CHR '' '' # n) fnames)
                                   @ CHR '' '' # n
                                   @ concat (map (\<lambda>n. CHR '' '' # n) bnames)\<rparr>)"
proof
  from assms(4,5) show "build_dispatchers params = build_dispatchers (front @ tail)"
    by (simp add: build_dispatchers_skip)
next
  from assms(3) have un: "build_dispatchers params (verb_key (find_char CHR ''='' param) param) = None"
    by (simp add: build_dispatchers_None)
  from assms(4,6,7,8) have nm: "map name params = map Some (fnames @ n # bnames)" by simp
  from parse_loop_unknown [where D = "build_dispatchers params", OF assms(1) assms(2) un nm]
  show "parse_loop (build_dispatchers params) params argv obj s param
           = Some (False, argv, obj,
                   s\<lparr>m_count := - 1,
                     m_errors := m_errors s @ ''Unknown verb '' @ apostrophe
                                   @ verb_key (find_char CHR ''='' param) param
                                   @ apostrophe @ '' expected one of:''
                                   @ concat (map (\<lambda>n. CHR '' '' # n) fnames)
                                   @ CHR '' '' # n
                                   @ concat (map (\<lambda>n. CHR '' '' # n) bnames)\<rparr>)"
    by simp
qed

theorem C10_listing_includes_invalid_witness:
  "parse [''b''] Test0
      [\<lparr>dispatcher = Some Test_dash, name = Some ''a'', description = Some [], aliases = Some []\<rparr>,
       \<lparr>dispatcher = None, name = Some ''b'', description = Some [], aliases = Some ''bb''\<rparr>,
       \<lparr>dispatcher = Some Test_dash, name = Some ''c'', description = Some [], aliases = Some []\<rparr>]
      \<lparr>m_count = 1, m_values = 0, m_errors = []\<rparr>
    = Some (False, [''b''], Test0,
            \<lparr>m_count = - 1, m_values = 1,
               m_errors = ''Unknown verb '' @ apostrophe @ ''b'' @ apostrophe @ '' expected one of: a b c''\<rparr>)"
proof -
  let ?a = "\<lparr>dispatcher = Some Test_dash, name = Some ''a'', description = Some [], aliases = Some []\<rparr>"
  let ?b = "\<lparr>dispatcher = None, name = Some ''b'', description = Some [], aliases = Some ''bb''\<rparr> :: Test Parameter"
  let ?c = "\<lparr>dispatcher = Some Test_dash, name = Some ''c'', description = Some [], aliases = Some []\<rparr>"
  let ?s = "\<lparr>m_count = 0, m_values = 1, m_errors = []\<rparr>"
  have key: "verb_key (find_char CHR ''='' ''b'') ''b'' = ''b''" by (simp add: verb_key_def)
  have ka: "spec_keys ?a = {''a''}" and kc: "spec_keys ?c = {''c''}"
    by (simp_all add: spec_keys_def spec_alias_names_def)
  have vb: "\<not> valid ?b" by (simp add: valid_def)
  have h1: "0 \<le> m_count ?s" and h2: "''b'' \<noteq> []" by simp_all
  have h3: "\<forall>q \<in> set [?a, ?b, ?c]. valid q \<longrightarrow> verb_key (find_char CHR ''='' ''b'') ''b'' \<notin> spec_keys q"
    using vb by (simp add: verb_key_def ka kc)
  have h4: "[?a, ?b, ?c] = [?a] @ ?b # [?c]" by simp
  have h6: "map name [?a] = map Some [''a'']" and h7: "name ?b = Some ''b''"
    and h8: "map name [?c] = map Some [''c'']" by simp_all
  from C10_listing_includes_invalid [where argv = "[''b'']" and obj = Test0, OF h1 h2 h3 h4 vb h6 h7 h8, THEN conjunct2]
  have "parse_loop (build_dispatchers [?a, ?b, ?c]) [?a, ?b, ?c] [''b''] Test0 ?s ''b''
          = Some (False, [''b''], Test0,
                  \<lparr>m_count = - 1, m_values = 1,
                     m_errors = ''Unknown verb '' @ apostrophe @ ''b'' @ apostrophe @ '' expected one of: a b c''\<rparr>)"
    by (simp add: verb_key_def)
  then show ?thesis by (simp add: parse_def get_view_def deref_def)
qed

text \<open>
  The claim as stated fails for the third kind of invalid descriptor, the one with a null
  name: it is skipped when the dispatch table is built, but the listing hands its name, a
  null \<open>const char*\<close>, to \<open>std::string::operator+=\<close>, which has no defined result. With
  the table of \<open>a\<close> and a null-named descriptor, the unknown token \<open>c\<close> gives no
  listing.
\<close>

theorem C10_counterexample:
  "\<not> valid \<lparr>dispatcher = Some Test_dash, name = None, description = Some [], aliases = Some []\<rparr>
   \<and> parse [''c''] Test0
      [\<lparr>dispatcher = Some Test_dash, name = Some ''a'', description = Some [], aliases = Some []\<rparr>,
       \<lparr>dispatcher = Some Test_dash, name = None, description = Some [], aliases = Some []\<rparr>]
      \<lparr>m_count = 1, m_values = 0, m_errors = []\<rparr>
    = None"
proof -
  let ?a = "\<lparr>dispatcher = Some Test_dash, name = Some ''a'', description = Some [], aliases = Some []\<rparr>"
  let ?n = "\<lparr>dispatcher = Some Test_dash, name = None, description = Some [], aliases = Some []\<rparr>"
  have inv: "\<not> valid ?n" by (simp add: valid_def)
  have "build_dispatchers [?a, ?n] ''c'' = None"
    by (simp add: build_dispatchers_None valid_def spec_keys_def spec_alias_names_def)
  then have "parse_loop (build_dispatchers [?a, ?n]) [?a, ?n] [''c''] Test0
               \<lparr>m_count = 0, m_values = 1, m_errors = []\<rparr> ''c'' = None"
    by (subst parse_loop.simps) (simp add: verb_key_def message_def)
  then have "parse [''c''] Test0 [?a, ?n] \<lparr>m_count = 1, m_values = 0, m_errors = []\<rparr> = None"
    by (simp add: parse_def get_view_def deref_def)
  with inv show ?thesis by simp
qed

subsection \<open>Splitting at the equals sign\<close>

lemma unget_split:
  assumes "0 \<le> m_count s" and "deref argv (m_values s - 1) = Some tok" and "pos \<le> length tok"
  shows "unget (int pos) argv s
           = Some (Some (m_values s - 1, tok), argv[nat (m_values s - 1) := drop pos tok],
                   s\<lparr>m_count := m_count s + 1, m_values := m_values s - 1\<rparr>)"
  using assms by (simp add: unget_def Let_def)

lemma revert_unget:
  assumes "unget pos argv s = Some (saved, argv1, sa)"
  shows "revert saved argv1 = argv"
proof (cases "m_count s < 0")
  case True
  with assms show ?thesis by (simp add: unget_def revert_def nothing_def)
next
  case False
  with assms obtain tok where d: "deref argv (m_values s - 1) = Some tok"
    and sv: "saved = Some (m_values s - 1, tok)"
    and a1: "argv1 = argv[nat (m_values s - 1) := drop (nat pos) tok]"
    by (auto simp: unget_def Let_def split: option.splits if_splits)
  from d have "tok = argv ! nat (m_values s - 1)"
    by (auto simp: deref_def split: if_splits)
  with sv a1 show ?thesis by (simp add: revert_def)
qed

lemma save_split_revert:
  assumes "save_split eq argv s = Some (saved, argv1, sa)"
  shows "revert saved argv1 = argv"
proof (cases eq)
  case None
  with assms show ?thesis by (simp add: save_split_def revert_def nothing_def)
next
  case (Some e)
  with assms have "unget (int e + 1) argv s = Some (saved, argv1, sa)" by (simp add: save_split_def)
  then show ?thesis by (rule revert_unget)
qed

text \<open>One successful pass through the loop body.\<close>

lemma parse_loop_dispatch:
  assumes "0 \<le> m_count s" and "param \<noteq> []"
    and "D (verb_key (find_char CHR ''='' param) param) = Some (Some h)"
    and "save_split (find_char CHR ''='' param) argv s = Some (saved, argv1, sa)"
    and "h obj (verb_key (find_char CHR ''='' param) param) argv1 sa = Some (ok, obj', sb)"
  shows "parse_loop D params argv obj s param
           = (if \<not> ok then Some (False, argv, obj', sb)
              else case get_view argv sb of
                     None \<Rightarrow> None
                   | Some (param', sc) \<Rightarrow> parse_loop D params argv obj' sc param')"
proof -
  have rv: "revert saved argv1 = argv" using assms(4) by (rule save_split_revert)
  from assms show ?thesis
    by (subst parse_loop.simps)
       (simp add: Let_def rv cong: option.case_cong if_cong prod.case_cong)
qed

lemma parse_loop_tokens:
  assumes "parse_loop D params argv obj s param = Some r"
  shows "fst (snd r) = argv"
proof (rule parse_loop.raw_induct [where P = "\<lambda>D params argv obj s param r. fst (snd r) = argv", OF _ assms],
       goal_cases)
  case (1 loop D params argv obj s param r)
  note IH = "1"(1) and body = "1"(2)
  show ?case
  proof (cases "\<not> (0 \<le> m_count s \<and> param \<noteq> [])")
    case True
    with body show ?thesis by auto
  next
    case False
    let ?eq = "find_char CHR ''='' param"
    let ?key = "verb_key ?eq param"
    show ?thesis
    proof (cases "D ?key")
      case None
      with False body show ?thesis by (auto simp: Let_def split: option.splits)
    next
      case (Some d)
      with False body obtain saved argv1 sa h ok obj' sb where
        pr: "save_split ?eq argv s = Some (saved, argv1, sa)"
        and h: "d = Some h" "h obj ?key argv1 sa = Some (ok, obj', sb)"
        and rest: "(if \<not> ok then Some (False, revert saved argv1, obj', sb)
                    else (case get_view (revert saved argv1) sb of
                            None \<Rightarrow> None
                          | Some (param', sc) \<Rightarrow> loop D params (revert saved argv1) obj' sc param')) = Some r"
        by (auto simp: Let_def split: option.splits)
      have rv: "revert saved argv1 = argv" using pr by (rule save_split_revert)
      show ?thesis
      proof (cases ok)
        case False
        with rest rv show ?thesis by auto
      next
        case True
        with rest rv obtain param' sc where "loop D params argv obj' sc param' = Some r"
          by (auto split: option.splits)
        then show ?thesis by (rule IH)
      qed
    qed
  qed
qed

lemma parse_tokens:
  assumes "parse argv obj params s = Some r"
  shows "fst (snd r) = argv"
proof (cases "m_count s \<le> 0")
  case True
  with assms show ?thesis by (auto simp: parse_def)
next
  case False
  with assms obtain param s' where "parse_loop (build_dispatchers params) params argv obj s' param = Some r"
    by (auto simp: parse_def split: option.splits)
  then show ?thesis by (rule parse_loop_tokens)
qed

text \<open>
  Claim C4. The loop has pulled the token \<open>param\<close> (it sits in the slot before the cursor),
  \<open>param\<close> has its first \<open>=\<close> at offset \<open>e\<close>, and the key \<open>take (e + 1) param\<close> is bound to
  the handler \<open>h\<close>. Then \<open>h\<close> is invoked with that key on a cursor stepped back by one and
  a token array whose slot holds the remainder after the \<open>=\<close>, so that \<open>get()\<close> there
  returns the remainder. Whatever \<open>h\<close> returns, success or failure, and wherever it left
  the cursor, the engine goes on (or returns failure) with the original token array. Every
  call of \<open>parse\<close> that returns leaves the token array as it found it.
\<close>

theorem C4_split_and_restore:
  assumes "0 \<le> m_count s"
    and "deref argv (m_values s - 1) = Some param"
    and "find_char CHR ''='' param = Some e"
    and "D (take (e + 1) param) = Some (Some h)"
  shows "get_view (argv[nat (m_values s - 1) := drop (e + 1) param])
                  (s\<lparr>m_count := m_count s + 1, m_values := m_values s - 1\<rparr>)
           = Some (drop (e + 1) param, s)
       \<and> parse_loop D params argv obj s param
           = (case h obj (take (e + 1) param) (argv[nat (m_values s - 1) := drop (e + 1) param])
                     (s\<lparr>m_count := m_count s + 1, m_values := m_values s - 1\<rparr>) of
                None \<Rightarrow> None
              | Some (ok, obj', sb) \<Rightarrow>
                  if \<not> ok then Some (False, argv, obj', sb)
                  else (case get_view argv sb of
                          None \<Rightarrow> None
                        | Some (param', sc) \<Rightarrow> parse_loop D params argv obj' sc param'))
       \<and> (\<forall>r. parse_loop D params argv obj s param = Some r \<longrightarrow> fst (snd r) = argv)
       \<and> (\<forall>r. parse argv obj params z = Some r \<longrightarrow> fst (snd r) = argv)"
proof (intro conjI allI impI)
  from assms(2) have rng: "0 \<le> m_values s - 1" "m_values s - 1 < int (length argv)"
    by (auto simp: deref_def split: if_splits)
  then show "get_view (argv[nat (m_values s - 1) := drop (e + 1) param])
                  (s\<lparr>m_count := m_count s + 1, m_values := m_values s - 1\<rparr>)
           = Some (drop (e + 1) param, s)"
    using assms(1) by (simp add: get_view_def deref_def)
next
  let ?argv1 = "argv[nat (m_values s - 1) := drop (e + 1) param]"
  let ?sa = "s\<lparr>m_count := m_count s + 1, m_values := m_values s - 1\<rparr>"
  from assms(3) have le: "e + 1 \<le> length param" and ne: "param \<noteq> []"
    using find_char_less [of "CHR ''=''" param e] by auto
  have key: "verb_key (find_char CHR ''='' param) param = take (e + 1) param"
    using assms(3) by (simp add: verb_key_def)
  have sv: "save_split (find_char CHR ''='' param) argv s = Some (Some (m_values s - 1, param), ?argv1, ?sa)"
    using unget_split [OF assms(1,2) le] assms(3) by (simp add: save_split_def add.commute)
  show "parse_loop D params argv obj s param
           = (case h obj (take (e + 1) param) ?argv1 ?sa of
                None \<Rightarrow> None
              | Some (ok, obj', sb) \<Rightarrow>
                  if \<not> ok then Some (False, argv, obj', sb)
                  else (case get_view argv sb of
                          None \<Rightarrow> None
                        | Some (param', sc) \<Rightarrow> parse_loop D params argv obj' sc param'))"
  proof (cases "h obj (take (e + 1) param) ?argv1 ?sa")
    case None
    with assms(1,4) ne key sv show ?thesis
      by (subst parse_loop.simps) (simp add: Let_def)
  next
    case (Some res)
    obtain ok obj' sb where res: "res = (ok, obj', sb)" by (cases res)
    from Some res key have hh: "h obj (verb_key (find_char CHR ''='' param) param) ?argv1 ?sa = Some (ok, obj', sb)"
      by simp
    from assms(4) key have dd: "D (verb_key (find_char CHR ''='' param) param) = Some (Some h)" by simp
    from parse_loop_dispatch [where D = D and h = h, OF assms(1) ne dd sv hh] Some res
    show ?thesis by simp
  qed
next
  fix r assume "parse_loop D params argv obj s param = Some r"
  then show "fst (snd r) = argv" by (rule parse_loop_tokens)
next
  fix r assume "parse argv obj params z = Some r"
  then show "fst (snd r) = argv" by (rule parse_tokens)
qed

lemma Test_params_lookup:
  "build_dispatchers Test_params ''--option='' = Some (Some Test_option)"
  "build_dispatchers Test_params ''-'' = Some (Some Test_dash)"
  by (simp_all add: build_dispatchers_lookup Test_params_def valid_def spec_keys_def spec_alias_names_def)

theorem C4_split_and_restore_witness:
  "get_view [''5'', ''-''] \<lparr>m_count = 2, m_values = 0, m_errors = []\<rparr>
     = Some (''5'', \<lparr>m_count = 1, m_values = 1, m_errors = []\<rparr>)
   \<and> parse [''--option=5'', ''-''] Test0 Test_params \<lparr>m_count = 2, m_values = 0, m_errors = []\<rparr>
     = Some (True, [''--option=5'', ''-''], Test0\<lparr>t_s := ''5''\<rparr>,
             \<lparr>m_count = 0, m_values = 2, m_errors = ''--option= ''\<rparr>)"
proof -
  let ?s = "\<lparr>m_count = 1, m_values = 1, m_errors = []\<rparr>"
  let ?argv = "[''--option=5'', ''-'']"
  have h1: "0 \<le> m_count ?s" by simp
  have h2: "deref ?argv (m_values ?s - 1) = Some ''--option=5''" by (simp add: deref_def)
  have h3: "find_char CHR ''='' ''--option=5'' = Some 8" by simp
  have h4: "build_dispatchers Test_params (take (8 + 1) ''--option=5'') = Some (Some Test_option)"
    by (simp add: Test_params_lookup)
  note inst = C4_split_and_restore
      [where params = Test_params and obj = Test0 and z = ?s and s = ?s and argv = ?argv
         and param = "''--option=5''" and e = 8 and D = "build_dispatchers Test_params"
         and h = Test_option, OF h1 h2 h3 h4]
  from inst [THEN conjunct1]
  have a: "get_view [''5'', ''-''] \<lparr>m_count = 2, m_values = 0, m_errors = []\<rparr> = Some (''5'', ?s)"
    by simp
  from inst [THEN conjunct2, THEN conjunct1]
  have "parse_loop (build_dispatchers Test_params) Test_params ?argv Test0 ?s ''--option=5''
          = Some (True, ?argv, Test0\<lparr>t_s := ''5''\<rparr>, \<lparr>m_count = 0, m_values = 2, m_errors = ''--option= ''\<rparr>)"
    by (simp add: Test_option_def Test_dash_def errors_swap_def getall_def get_slot_def get_string_def
          get_view_def deref_def parse_loop.simps Test_params_lookup verb_key_def save_split_def
          revert_def nothing_def Test0_def)
  then have b: "parse ?argv Test0 Test_params \<lparr>m_count = 2, m_values = 0, m_errors = []\<rparr>
          = Some (True, ?argv, Test0\<lparr>t_s := ''5''\<rparr>, \<lparr>m_count = 0, m_values = 2, m_errors = ''--option= ''\<rparr>)"
    by (simp add: parse_def get_view_def deref_def)
  from a b show ?thesis by simp
qed

subsection \<open>The result of parse\<close>

lemma spec_step_parse_loop:
  assumes "spec_step D argv c c'"
  shows "parse_loop D params argv (fst c) (fst (snd c)) (snd (snd c))
           = parse_loop D params argv (fst c') (fst (snd c')) (snd (snd c'))"
  using assms
proof cases
  case (dispatched s param h saved argv1 sa obj obj' sb param' sc)
  from parse_loop_dispatch [where D = D and h = h and params = params, OF dispatched(3-7)] dispatched(1,2,8)
  show ?thesis by simp
qed

lemma spec_steps_parse_loop:
  assumes "(spec_step D argv)\<^sup>*\<^sup>* c c'"
  shows "parse_loop D params argv (fst c) (fst (snd c)) (snd (snd c))
           = parse_loop D params argv (fst c') (fst (snd c')) (snd (snd c'))"
  using assms
proof (induction rule: rtranclp_induct)
  case base
  show ?case by simp
next
  case (step y z)
  from step.IH spec_step_parse_loop [OF step.hyps(2)] show ?case by simp
qed

lemma spec_done_parse_loop:
  assumes "spec_done (obj, s, param)"
  shows "parse_loop D params argv obj s param = Some (True, argv, obj, s)"
  using assms by (subst parse_loop.simps) (simp add: spec_done_def)

lemma spec_failed_parse_loop:
  assumes "spec_failed D argv c" and "map name params = map Some names"
  shows "\<exists>r. parse_loop D params argv (fst c) (fst (snd c)) (snd (snd c)) = Some (False, r)"
  using assms(1)
proof cases
  case (unknown_verb s param obj)
  from parse_loop_unknown [where D = D, OF unknown_verb(2) unknown_verb(3) unknown_verb(4) assms(2)]
       unknown_verb(1)
  show ?thesis by simp
next
  case (handler_failure s param h saved argv1 sa obj obj' sb)
  from parse_loop_dispatch [where D = D and h = h and params = params, OF handler_failure(2-6)] handler_failure(1)
  show ?thesis by simp
qed

lemma parse_loop_run:
  assumes "parse_loop D params argv obj s param = Some r"
  shows "if fst r then \<exists>c. (spec_step D argv)\<^sup>*\<^sup>* (obj, s, param) c \<and> spec_done c
         else \<exists>c. (spec_step D argv)\<^sup>*\<^sup>* (obj, s, param) c \<and> spec_failed D argv c"
proof (rule parse_loop.raw_induct
         [where P = "\<lambda>D params argv obj s param r.
             if fst r then \<exists>c. (spec_step D argv)\<^sup>*\<^sup>* (obj, s, param) c \<and> spec_done c
             else \<exists>c. (spec_step D argv)\<^sup>*\<^sup>* (obj, s, param) c \<and> spec_failed D argv c",
          OF _ assms],
       goal_cases)
  case (1 loop D params argv obj s param r)
  note IH = "1"(1) and body = "1"(2)
  show ?case
  proof (cases "\<not> (0 \<le> m_count s \<and> param \<noteq> [])")
    case True
    with body have "fst r" and "spec_done (obj, s, param)" by (auto simp: spec_done_def)
    then show ?thesis by auto
  next
    case False
    then have g: "0 \<le> m_count s" "param \<noteq> []" by simp_all
    let ?eq = "find_char CHR ''='' param"
    let ?key = "verb_key ?eq param"
    show ?thesis
    proof (cases "D ?key")
      case None
      with False body have "\<not> fst r" by (auto simp: Let_def split: option.splits)
      moreover from g None have "spec_failed D argv (obj, s, param)" by (rule unknown_verb)
      ultimately show ?thesis by auto
    next
      case (Some d)
      with False body obtain saved argv1 sa h ok obj' sb where
        pr: "save_split ?eq argv s = Some (saved, argv1, sa)"
        and h: "d = Some h" "h obj ?key argv1 sa = Some (ok, obj', sb)"
        and rest: "(if \<not> ok then Some (False, revert saved argv1, obj', sb)
                    else (case get_view (revert saved argv1) sb of
                            None \<Rightarrow> None
                          | Some (param', sc) \<Rightarrow> loop D params (revert saved argv1) obj' sc param')) = Some r"
        by (auto simp: Let_def split: option.splits)
      have rv: "revert saved argv1 = argv" using pr by (rule save_split_revert)
      from Some h(1) have dk: "D ?key = Some (Some h)" by simp
      show ?thesis
      proof (cases ok)
        case False
        with rest have "\<not> fst r" by auto
        moreover from g dk pr h(2) False have "spec_failed D argv (obj, s, param)"
          by (auto intro: handler_failure)
        ultimately show ?thesis by auto
      next
        case True
        with rest rv obtain param' sc where gv: "get_view argv sb = Some (param', sc)"
          and rec: "loop D params argv obj' sc param' = Some r"
          by (auto split: option.splits)
        from g dk pr h(2) True gv have st: "spec_step D argv (obj, s, param) (obj', sc, param')"
          by (auto intro: dispatched)
        show ?thesis
        proof (cases "fst r")
          case True
          with IH [OF rec] obtain c where "(spec_step D argv)\<^sup>*\<^sup>* (obj', sc, param') c" and "spec_done c"
            by auto
          with st have "(spec_step D argv)\<^sup>*\<^sup>* (obj, s, param) c \<and> spec_done c"
            by (simp add: converse_rtranclp_into_rtranclp)
          then have "\<exists>c. (spec_step D argv)\<^sup>*\<^sup>* (obj, s, param) c \<and> spec_done c" by (rule exI)
          with True show ?thesis by (simp del: split_paired_Ex)
        next
          case False
          with IH [OF rec] obtain c where "(spec_step D argv)\<^sup>*\<^sup>* (obj', sc, param') c"
            and "spec_failed D argv c" by auto
          with st have "(spec_step D argv)\<^sup>*\<^sup>* (obj, s, param) c \<and> spec_failed D argv c"
            by (simp add: converse_rtranclp_into_rtranclp)
          then have "\<exists>c. (spec_step D argv)\<^sup>*\<^sup>* (obj, s, param) c \<and> spec_failed D argv c" by (rule exI)
          with False show ?thesis by (simp del: split_paired_Ex)
        qed
      qed
    qed
  qed
qed

text \<open>
  Claim C3, as the code has it. On a cursor with \<open>count \<le> 0\<close>, \<open>parse\<close> returns failure at
  once and changes nothing. Otherwise it pulls the first token and runs the loop. The loop
  returns true exactly when the state machine reaches the exit of the loop through rounds
  whose handlers all returned success; the exit is reached when the pulled token is empty
  (no token left, or an empty-string token) or the cursor is in the FAILURE state, and
  neither case turns the result into failure. The loop returns false exactly when the
  state machine reaches a FAILED transition, an unknown verb or a handler returning
  failure (the names of the table being C strings, none a null pointer).
\<close>

theorem C3_parse_result:
  "(m_count z \<le> 0 \<longrightarrow> parse argv obj params z = Some (False, argv, obj, z))
   \<and> (0 < m_count z \<and> get_view argv z = Some (param, s) \<longrightarrow>
        parse argv obj params z = parse_loop (build_dispatchers params) params argv obj s param)
   \<and> ((\<exists>r. parse_loop D params argv obj s param = Some (True, r))
        \<longleftrightarrow> (\<exists>c. (spec_step D argv)\<^sup>*\<^sup>* (obj, s, param) c \<and> spec_done c))
   \<and> (map name params = map Some names \<longrightarrow>
        ((\<exists>r. parse_loop D params argv obj s param = Some (False, r))
         \<longleftrightarrow> (\<exists>c. (spec_step D argv)\<^sup>*\<^sup>* (obj, s, param) c \<and> spec_failed D argv c)))"
proof (intro conjI impI)
  assume "m_count z \<le> 0"
  then show "parse argv obj params z = Some (False, argv, obj, z)" by (simp add: parse_def)
next
  assume "0 < m_count z \<and> get_view argv z = Some (param, s)"
  then show "parse argv obj params z = parse_loop (build_dispatchers params) params argv obj s param"
    by (simp add: parse_def)
next
  show "(\<exists>r. parse_loop D params argv obj s param = Some (True, r))
        \<longleftrightarrow> (\<exists>c. (spec_step D argv)\<^sup>*\<^sup>* (obj, s, param) c \<and> spec_done c)"
  proof
    assume "\<exists>r. parse_loop D params argv obj s param = Some (True, r)"
    then obtain r where "parse_loop D params argv obj s param = Some (True, r)" ..
    from parse_loop_run [OF this]
    show "\<exists>c. (spec_step D argv)\<^sup>*\<^sup>* (obj, s, param) c \<and> spec_done c" by simp
  next
    assume "\<exists>c. (spec_step D argv)\<^sup>*\<^sup>* (obj, s, param) c \<and> spec_done c"
    then obtain c where st: "(spec_step D argv)\<^sup>*\<^sup>* (obj, s, param) c" and dn: "spec_done c" by blast
    obtain o' s' p' where c: "c = (o', s', p')" by (cases c)
    from spec_steps_parse_loop [OF st, of params] c
    have "parse_loop D params argv obj s param = parse_loop D params argv o' s' p'" by simp
    also from dn c have "\<dots> = Some (True, argv, o', s')" by (simp add: spec_done_parse_loop)
    finally show "\<exists>r. parse_loop D params argv obj s param = Some (True, r)"
      by (simp del: split_paired_Ex)
  qed
next
  assume nm: "map name params = map Some names"
  show "(\<exists>r. parse_loop D params argv obj s param = Some (False, r))
        \<longleftrightarrow> (\<exists>c. (spec_step D argv)\<^sup>*\<^sup>* (obj, s, param) c \<and> spec_failed D argv c)"
  proof
    assume "\<exists>r. parse_loop D params argv obj s param = Some (False, r)"
    then obtain r where "parse_loop D params argv obj s param = Some (False, r)" ..
    from parse_loop_run [OF this]
    show "\<exists>c. (spec_step D argv)\<^sup>*\<^sup>* (obj, s, param) c \<and> spec_failed D argv c" by simp
  next
    assume "\<exists>c. (spec_step D argv)\<^sup>*\<^sup>* (obj, s, param) c \<and> spec_failed D argv c"
    then obtain c where st: "(spec_step D argv)\<^sup>*\<^sup>* (obj, s, param) c" and fl: "spec_failed D argv c"
      by blast
    from spec_steps_parse_loop [OF st, of params]
    have "parse_loop D params argv obj s param
            = parse_loop D params argv (fst c) (fst (snd c)) (snd (snd c))" by simp
    with spec_failed_parse_loop [OF fl nm]
    show "\<exists>r. parse_loop D params argv obj s param = Some (False, r)" by simp
  qed
qed

theorem C3_parse_result_witness:
  "parse [''-''] Test0 Test_params \<lparr>m_count = 0, m_values = 1, m_errors = []\<rparr>
     = Some (False, [''-''], Test0, \<lparr>m_count = 0, m_values = 1, m_errors = []\<rparr>)
   \<and> parse [''-''] Test0 Test_params \<lparr>m_count = 1, m_values = 0, m_errors = []\<rparr>
     = Some (True, [''-''], Test0, \<lparr>m_count = 0, m_values = 1, m_errors = []\<rparr>)
   \<and> (\<exists>c. (spec_step (build_dispatchers Test_params) [''-''])\<^sup>*\<^sup>*
              (Test0, \<lparr>m_count = 0, m_values = 1, m_errors = []\<rparr>, ''-'') c \<and> spec_done c)
   \<and> \<not> (\<exists>c. (spec_step (build_dispatchers Test_params) [''-''])\<^sup>*\<^sup>*
              (Test0, \<lparr>m_count = 0, m_values = 1, m_errors = []\<rparr>, ''-'') c
            \<and> spec_failed (build_dispatchers Test_params) [''-''] c)"
proof -
  let ?z = "\<lparr>m_count = 1, m_values = 0, m_errors = []\<rparr>"
  let ?s = "\<lparr>m_count = 0, m_values = 1, m_errors = []\<rparr>"
  let ?D = "build_dispatchers Test_params"
  note inst = C3_parse_result [where argv = "[''-'']" and obj = Test0 and params = Test_params
                and D = ?D and s = ?s and param = "''-''"
                and names = "[''--option='', ''foo'', ''bar'', ''-'', ''--'', ''help'']"]
  have e: "m_count ?s \<le> 0" by simp
  from inst [where z = ?s, THEN conjunct1, rule_format, OF e]
  have a: "parse [''-''] Test0 Test_params ?s = Some (False, [''-''], Test0, ?s)" .
  have lp: "parse_loop ?D Test_params [''-''] Test0 ?s ''-'' = Some (True, [''-''], Test0, ?s)"
    by (simp add: parse_loop.simps Test_params_lookup verb_key_def save_split_def nothing_def
          revert_def Test_dash_def get_view_def)
  have g: "0 < m_count ?z \<and> get_view [''-''] ?z = Some (''-'', ?s)"
    by (simp add: get_view_def deref_def)
  from inst [where z = ?z, THEN conjunct2, THEN conjunct1, rule_format, OF g] lp
  have b: "parse [''-''] Test0 Test_params ?z = Some (True, [''-''], Test0, ?s)" by simp
  from inst [where z = ?z, THEN conjunct2, THEN conjunct2, THEN conjunct1] lp
  have c: "\<exists>c. (spec_step ?D [''-''])\<^sup>*\<^sup>* (Test0, ?s, ''-'') c \<and> spec_done c"
    by (simp del: split_paired_Ex)
  have nm: "map name Test_params = map Some [''--option='', ''foo'', ''bar'', ''-'', ''--'', ''help'']"
    by (simp add: Test_params_def)
  from inst [where z = ?z, THEN conjunct2, THEN conjunct2, THEN conjunct2, rule_format, OF nm] lp
  have d: "\<not> (\<exists>c. (spec_step ?D [''-''])\<^sup>*\<^sup>* (Test0, ?s, ''-'') c \<and> spec_failed ?D [''-''] c)"
    by (simp del: split_paired_Ex)
  from a b c d show ?thesis by (simp del: split_paired_Ex)
qed

text \<open>
  The claim as stated fails. The handler \<open>lenient\<close> leaves the cursor in the FAILURE state
  and returns success: the loop ends with the tokens \<open>x\<close> and \<open>y\<close> unconsumed, and
  \<open>parse\<close> returns true. With the table of the test program, an empty-string token ends
  the loop: \<open>parse\<close> returns true with the token \<open>foo\<close> unconsumed.
\<close>

theorem C3_counterexample:
  "parse [''v'', ''x'', ''y''] Test0
      [\<lparr>dispatcher = Some lenient, name = Some ''v'', description = Some [], aliases = Some []\<rparr>]
      \<lparr>m_count = 3, m_values = 0, m_errors = []\<rparr>
    = Some (True, [''v'', ''x'', ''y''], Test0,
            \<lparr>m_count = - 1, m_values = 1,
               m_errors = ''expects number in place of '' @ apostrophe @ ''x'' @ apostrophe\<rparr>)
   \<and> parse [''-'', [], ''foo''] Test0 Test_params \<lparr>m_count = 3, m_values = 0, m_errors = []\<rparr>
    = Some (True, [''-'', [], ''foo''], Test0, \<lparr>m_count = 1, m_values = 2, m_errors = []\<rparr>)"
proof -
  have "build_dispatchers [\<lparr>dispatcher = Some lenient, name = Some ''v'', description = Some [], aliases = Some []\<rparr>] ''v''
          = Some (Some lenient)"
    by (simp add: build_dispatchers_lookup valid_def spec_keys_def)
  then have a: "parse [''v'', ''x'', ''y''] Test0
      [\<lparr>dispatcher = Some lenient, name = Some ''v'', description = Some [], aliases = Some []\<rparr>]
      \<lparr>m_count = 3, m_values = 0, m_errors = []\<rparr>
    = Some (True, [''v'', ''x'', ''y''], Test0,
            \<lparr>m_count = - 1, m_values = 1,
               m_errors = ''expects number in place of '' @ apostrophe @ ''x'' @ apostrophe\<rparr>)"
    by (simp add: parse_def parse_loop.simps get_view_def deref_def verb_key_def save_split_def
          nothing_def revert_def lenient_def get_int_def from_chars_def unsigned_t_def is_digit_def
          message_def Test0_def)
  have b: "parse [''-'', [], ''foo''] Test0 Test_params \<lparr>m_count = 3, m_values = 0, m_errors = []\<rparr>
    = Some (True, [''-'', [], ''foo''], Test0, \<lparr>m_count = 1, m_values = 2, m_errors = []\<rparr>)"
    by (simp add: parse_def parse_loop.simps get_view_def deref_def verb_key_def save_split_def
          nothing_def revert_def Test_dash_def Test_params_lookup)
  from a b show ?thesis by simp
qed

section \<open>Properties of the tokenizer\<close>

lemma str2argv_loop_fst_Cons:
  "fst (str2argv_loop sg cm st i (chr # rest))
     = (if classify sg cm chr \<noteq> sy_token then CHR 0x00 else chr)
       # fst (str2argv_loop sg cm (transitions st (classify sg cm chr)) (i + 1) rest)"
  by (simp add: Let_def split: prod.splits)

lemma str2argv_loop_snd_Cons:
  "snd (str2argv_loop sg cm st i (chr # rest))
     = (if transitions st (classify sg cm chr) = st_start then [i] else [])
       @ snd (str2argv_loop sg cm (transitions st (classify sg cm chr)) (i + 1) rest)"
  by (simp add: Let_def split: prod.splits)

lemma str2argv_loop_bytes:
  "fst (str2argv_loop sg cm st i xs)
     = map (\<lambda>chr. if classify sg cm chr = sy_token then chr else CHR 0x00) xs"
  by (induction xs arbitrary: st i) (simp_all add: str2argv_loop_fst_Cons del: str2argv_loop.simps(2))

lemma str2argv_loop_append:
  "snd (str2argv_loop sg cm st i (xs @ ys))
     = snd (str2argv_loop sg cm st i xs)
       @ snd (str2argv_loop sg cm (run_state sg cm st xs) (i + length xs) ys)"
  by (induction xs arbitrary: st i) (simp_all add: str2argv_loop_snd_Cons del: str2argv_loop.simps(2))

lemma comment_no_start:
  "\<forall>c \<in> set xs. classify sg cm c \<noteq> sy_eol \<Longrightarrow>
     snd (str2argv_loop sg cm st_comment i xs) = [] \<and> run_state sg cm st_comment xs = st_comment"
proof (induction xs arbitrary: i)
  case Nil
  then show ?case by simp
next
  case (Cons c xs)
  then have "transitions st_comment (classify sg cm c) = st_comment"
    by (cases "classify sg cm c") simp_all
  with Cons show ?case by (simp add: str2argv_loop_snd_Cons del: str2argv_loop.simps(2))
qed

lemma to_comment: "transitions st sy_comment = st_comment"
  by (cases st) simp_all

lemma start_only_on_token: "transitions st sy = st_start \<Longrightarrow> sy = sy_token"
  by (cases st; cases sy) simp_all

lemma str2argv_loop_bounds:
  "p \<in> set (snd (str2argv_loop sg cm st i xs)) \<Longrightarrow>
     i \<le> p \<and> p < i + length xs \<and> classify sg cm (xs ! (p - i)) = sy_token"
proof (induction xs arbitrary: st i)
  case Nil
  then show ?case by simp
next
  case (Cons c xs)
  let ?st' = "transitions st (classify sg cm c)"
  from Cons.prems have "(?st' = st_start \<and> p = i) \<or> p \<in> set (snd (str2argv_loop sg cm ?st' (i + 1) xs))"
    by (auto simp: str2argv_loop_snd_Cons simp del: str2argv_loop.simps(2) split: if_splits)
  then show ?case
  proof
    assume "?st' = st_start \<and> p = i"
    then show ?thesis using start_only_on_token [of st "classify sg cm c"] by simp
  next
    assume "p \<in> set (snd (str2argv_loop sg cm ?st' (i + 1) xs))"
    from Cons.IH [OF this]
    have "i + 1 \<le> p \<and> p < i + 1 + length xs \<and> classify sg cm (xs ! (p - (i + 1))) = sy_token" .
    then show ?thesis by (auto simp: nth_Cons')
  qed
qed

lemma no_start_in_comment:
  assumes "classify sg cm c = sy_comment" and "\<forall>x \<in> set body. classify sg cm x \<noteq> sy_eol"
    and "p \<in> set (snd (str2argv_loop sg cm st i (front @ c # body @ rest)))"
  shows "p < i + length front \<or> i + length front + 1 + length body \<le> p"
proof -
  let ?st1 = "run_state sg cm st front"
  have a: "snd (str2argv_loop sg cm st i (front @ c # body @ rest))
        = snd (str2argv_loop sg cm st i front)
          @ snd (str2argv_loop sg cm ?st1 (i + length front) (c # body @ rest))"
    by (rule str2argv_loop_append)
  have b: "snd (str2argv_loop sg cm ?st1 (i + length front) (c # body @ rest))
        = snd (str2argv_loop sg cm st_comment (i + length front + 1) (body @ rest))"
    using assms(1) by (simp add: str2argv_loop_snd_Cons to_comment del: str2argv_loop.simps(2))
  have c: "snd (str2argv_loop sg cm st_comment (i + length front + 1) (body @ rest))
        = snd (str2argv_loop sg cm st_comment (i + length front + 1 + length body) rest)"
    using comment_no_start [OF assms(2)] by (simp add: str2argv_loop_append)
  from assms(3) a b c have "p \<in> set (snd (str2argv_loop sg cm st i front))
      \<or> p \<in> set (snd (str2argv_loop sg cm st_comment (i + length front + 1 + length body) rest))"
    by simp
  then show ?thesis
  proof
    assume "p \<in> set (snd (str2argv_loop sg cm st i front))"
    from str2argv_loop_bounds [OF this] show ?thesis by simp
  next
    assume "p \<in> set (snd (str2argv_loop sg cm st_comment (i + length front + 1 + length body) rest))"
    from str2argv_loop_bounds [OF this] show ?thesis by simp
  qed
qed

lemma classify_eol: "classify sg cm x = sy_eol \<longleftrightarrow> x = CHR 0x0A"
  by (simp add: classify_def)

lemma classify_token:
  "classify sg cm chr = sy_token
     \<longleftrightarrow> \<not> (chr = CHR 0x0A \<or> char_int sg chr \<le> char_int sg CHR '' '' \<or> chr = cm)"
  by (simp add: classify_def)

lemma char_int_ascii: "(of_char c :: nat) < 128 \<Longrightarrow> char_int sg c = int (of_char c)"
  by (simp add: char_int_def)

lemma char_int_space: "char_int sg CHR '' '' = 32"
  by (simp add: char_int_def)

lemma char_int_le: "char_int sg c \<le> int (of_char c)"
  by (simp add: char_int_def)

lemma classify_ascii:
  "(of_char chr :: nat) < 128 \<Longrightarrow>
     classify sg cm chr = sy_token
       \<longleftrightarrow> \<not> (chr = CHR 0x0A \<or> (of_char chr :: nat) \<le> 32 \<or> chr = cm)"
  by (simp add: classify_def char_int_ascii char_int_space)

lemma classify_token_above_space:
  assumes "classify sg cm chr = sy_token"
  shows "32 < (of_char chr :: nat) \<and> chr \<noteq> cm \<and> chr \<noteq> CHR 0x0A"
proof -
  from assms have a: "\<not> char_int sg chr \<le> 32" and b: "chr \<noteq> cm" and c: "chr \<noteq> CHR 0x0A"
    by (auto simp: classify_def char_int_space split: if_splits)
  from a char_int_le [of sg chr] have "32 < int (of_char chr)" by linarith
  with b c show ?thesis by simp
qed

lemma classify_marker:
  assumes "cm \<noteq> CHR 0x0A" and "32 < (of_char cm :: nat)" and "(of_char cm :: nat) < 128"
  shows "classify sg cm cm = sy_comment"
  using assms by (simp add: classify_def char_int_ascii char_int_space)

text \<open>
  Claim C7, as the code has it, for the bytes whose class does not depend on the
  signedness of \<open>char\<close>, the 7-bit ones (below 128). The buffer keeps its length. Every
  7-bit byte that is a newline, not above the space character (32), or equal to the
  comment marker is overwritten with the terminator byte; every other 7-bit byte is left
  as it was, the text of a comment after its marker too. Every returned token pointer
  points into the buffer, at a byte that is left as it was, is above the space character
  and is not the comment marker. When the comment marker is a 7-bit character above the
  space, no token starts between an occurrence of the marker and the end of its line.
  Tokenizing \<open>run  --flag=1 # comment\<close>, newline, \<open>next\<close> yields the tokens \<open>run\<close>,
  \<open>--flag=1\<close> and \<open>next\<close>.
\<close>

theorem C7_tokenizer_overwrites_separators:
  "length (fst (str2argv sg str cm)) = length str
   \<and> (\<forall>i < length str. (of_char (str ! i) :: nat) < 128 \<longrightarrow>
         fst (str2argv sg str cm) ! i
           = (if str ! i = CHR 0x0A \<or> (of_char (str ! i) :: nat) \<le> 32 \<or> str ! i = cm
              then CHR 0x00 else str ! i))
   \<and> (\<forall>p \<in> set (snd (str2argv sg str cm)).
         p < length str \<and> fst (str2argv sg str cm) ! p = str ! p
         \<and> 32 < (of_char (str ! p) :: nat) \<and> str ! p \<noteq> cm)
   \<and> (str = front @ cm # body @ rest \<and> cm \<noteq> CHR 0x0A \<and> 32 < (of_char cm :: nat)
        \<and> (of_char cm :: nat) < 128 \<and> CHR 0x0A \<notin> set body
        \<longrightarrow> (\<forall>p \<in> set (snd (str2argv sg str cm)). p < length front \<or> length front + 1 + length body \<le> p))
   \<and> tokens_of (str2argv sg (''run  --flag=1 # comment'' @ [CHR 0x0A] @ ''next'') CHR ''#'')
       = [''run'', ''--flag=1'', ''next'']"
proof (intro conjI impI ballI allI)
  show "length (fst (str2argv sg str cm)) = length str"
    by (simp add: str2argv_def str2argv_loop_bytes)
next
  fix i assume "i < length str" and "(of_char (str ! i) :: nat) < 128"
  then show "fst (str2argv sg str cm) ! i
           = (if str ! i = CHR 0x0A \<or> (of_char (str ! i) :: nat) \<le> 32 \<or> str ! i = cm
              then CHR 0x00 else str ! i)"
    by (simp add: str2argv_def str2argv_loop_bytes classify_ascii)
next
  fix p assume "p \<in> set (snd (str2argv sg str cm))"
  then have "p \<in> set (snd (str2argv_loop sg cm st_space 0 str))" by (simp add: str2argv_def)
  from str2argv_loop_bounds [OF this]
  have lt: "p < length str" and tk: "classify sg cm (str ! p) = sy_token" by simp_all
  from lt show "p < length str" .
  from lt tk show "fst (str2argv sg str cm) ! p = str ! p"
    by (simp add: str2argv_def str2argv_loop_bytes)
  from classify_token_above_space [OF tk]
  show "32 < (of_char (str ! p) :: nat)" and "str ! p \<noteq> cm" by simp_all
next
  fix p
  assume a: "str = front @ cm # body @ rest \<and> cm \<noteq> CHR 0x0A \<and> 32 < (of_char cm :: nat)
        \<and> (of_char cm :: nat) < 128 \<and> CHR 0x0A \<notin> set body"
    and p: "p \<in> set (snd (str2argv sg str cm))"
  from a have c: "classify sg cm cm = sy_comment" by (simp add: classify_marker)
  from a have b: "\<forall>x \<in> set body. classify sg cm x \<noteq> sy_eol" by (auto simp: classify_eol)
  from a p have "p \<in> set (snd (str2argv_loop sg cm st_space 0 (front @ cm # body @ rest)))"
    by (simp add: str2argv_def)
  from no_start_in_comment [OF c b this]
  show "p < length front \<or> length front + 1 + length body \<le> p" by simp
next
  show "tokens_of (str2argv sg (''run  --flag=1 # comment'' @ [CHR 0x0A] @ ''next'') CHR ''#'')
       = [''run'', ''--flag=1'', ''next'']"
    by (cases sg)
       (simp_all add: tokens_of_def str2argv_def classify_def char_int_def c_str_at_def
          str2argv_loop_snd_Cons str2argv_loop_fst_Cons del: str2argv_loop.simps(2))
qed

theorem C7_tokenizer_overwrites_separators_witness:
  "snd (str2argv True (''run  --flag=1 # comment'' @ [CHR 0x0A] @ ''next'') CHR ''#'') = [0, 5, 24]
   \<and> fst (str2argv True (''run  --flag=1 # comment'' @ [CHR 0x0A] @ ''next'') CHR ''#'') ! 14 = CHR 0x00
   \<and> fst (str2argv True (''run  --flag=1 # comment'' @ [CHR 0x0A] @ ''next'') CHR ''#'') ! 16 = CHR ''c''
   \<and> fst (str2argv True (''run  --flag=1 # comment'' @ [CHR 0x0A] @ ''next'') CHR ''#'') ! 5 = CHR ''-''
   \<and> (24 < length ''run  --flag=1 '' \<or> length ''run  --flag=1 '' + 1 + length '' comment'' \<le> (24 :: nat))"
proof -
  let ?str = "''run  --flag=1 # comment'' @ [CHR 0x0A] @ ''next''"
  note inst = C7_tokenizer_overwrites_separators [where sg = True and str = ?str and cm = "CHR ''#''" and front = "''run  --flag=1 ''"
                     and body = "'' comment''" and rest = "[CHR 0x0A] @ ''next''"]
  have ptrs: "snd (str2argv True ?str CHR ''#'') = [0, 5, 24]"
    by (simp add: str2argv_def classify_def char_int_def
          str2argv_loop_snd_Cons del: str2argv_loop.simps(2))
  have i14: "14 < length ?str \<and> (of_char (?str ! 14) :: nat) < 128" by simp
  have i16: "16 < length ?str \<and> (of_char (?str ! 16) :: nat) < 128" by simp
  from inst [THEN conjunct2, THEN conjunct1, rule_format, of 14] i14
  have a: "fst (str2argv True ?str CHR ''#'') ! 14 = CHR 0x00" by simp
  from inst [THEN conjunct2, THEN conjunct1, rule_format, of 16] i16
  have b: "fst (str2argv True ?str CHR ''#'') ! 16 = CHR ''c''" by simp
  have m5: "5 \<in> set (snd (str2argv True ?str CHR ''#''))" and m24: "24 \<in> set (snd (str2argv True ?str CHR ''#''))"
    using ptrs by simp_all
  from inst [THEN conjunct2, THEN conjunct2, THEN conjunct1, rule_format, OF m5]
  have c: "fst (str2argv True ?str CHR ''#'') ! 5 = CHR ''-''" by simp
  have hyp: "?str = ''run  --flag=1 '' @ CHR ''#'' # '' comment'' @ ([CHR 0x0A] @ ''next'')
      \<and> CHR ''#'' \<noteq> CHR 0x0A \<and> 32 < (of_char CHR ''#'' :: nat) \<and> (of_char CHR ''#'' :: nat) < 128
      \<and> CHR 0x0A \<notin> set '' comment''" by simp
  from inst [THEN conjunct2, THEN conjunct2, THEN conjunct2, THEN conjunct1, rule_format, OF hyp m24]
  have d: "24 < length ''run  --flag=1 '' \<or> length ''run  --flag=1 '' + 1 + length '' comment'' \<le> (24 :: nat)" .
  from ptrs a b c d show ?thesis by simp
qed

text \<open>
  The claim as stated fails: in the buffer \<open>#c\<close> the byte \<open>c\<close> belongs to the comment, and
  after tokenizing it is still \<open>c\<close>; only the marker has become a terminator.
\<close>

theorem C7_counterexample:
  "fst (str2argv True ''#c'' CHR ''#'') = [CHR 0x00, CHR ''c'']"
  by (simp add: str2argv_def classify_def char_int_def Let_def)

end
